theory Spec2Isabelle
  imports Main
begin

section \<open>Text and characters\<close>

text \<open>
  Story text is a list of characters. The character classes below are the ones the
  regular expressions of the sources use: \<^verbatim>\<open>\d\<close>, \<^verbatim>\<open>\w\<close>, \<^verbatim>\<open>\s\<close>, the line
  terminators that \<^verbatim>\<open>.\<close>, \<^verbatim>\<open>^\<close> and \<^verbatim>\<open>$\<close> look at, and the letters \<^verbatim>\<open>[a-e]\<close>.
  The characters of HOL have 8 bits, so a text here is a string of the sources whose
  code units are below 256; among these the classes and the case mapping of the
  patterns single out and change ASCII characters only, except for the no-break space
  in \<^verbatim>\<open>\s\<close>.
\<close>

definition isDigit :: "char \<Rightarrow> bool" where
  "isDigit ch = (ch \<in> set ''0123456789'')"

definition isWordChar :: "char \<Rightarrow> bool" where
  "isWordChar ch =
     (ch \<in> set ''abcdefghijklmnopqrstuvwxyzABCDEFGHIJKLMNOPQRSTUVWXYZ0123456789_'')"

definition isLineTerminator :: "char \<Rightarrow> bool" where
  "isLineTerminator ch = (ch = CHR 0x0A \<or> ch = CHR 0x0D)"

definition isSpace :: "char \<Rightarrow> bool" where
  "isSpace ch =
     (ch = CHR 0x09 \<or> ch = CHR 0x0A \<or> ch = CHR 0x0B \<or> ch = CHR 0x0C \<or> ch = CHR 0x0D
      \<or> ch = CHR 0x20 \<or> ch = CHR 0xA0)"

definition isChoiceLetter :: "char \<Rightarrow> bool" where
  "isChoiceLetter ch = (ch \<in> set ''abcde'')"

definition toUpperChar :: "char \<Rightarrow> char" where
  "toUpperChar ch =
     (case map_of (zip ''abcdefghijklmnopqrstuvwxyz'' ''ABCDEFGHIJKLMNOPQRSTUVWXYZ'') ch of
        Some u \<Rightarrow> u | None \<Rightarrow> ch)"

definition toLowerChar :: "char \<Rightarrow> char" where
  "toLowerChar ch =
     (case map_of (zip ''ABCDEFGHIJKLMNOPQRSTUVWXYZ'' ''abcdefghijklmnopqrstuvwxyz'') ch of
        Some l \<Rightarrow> l | None \<Rightarrow> ch)"

definition toLowerCase :: "string \<Rightarrow> string" where
  "toLowerCase s = map toLowerChar s"

definition trim :: "string \<Rightarrow> string" where
  "trim s = rev (dropWhile isSpace (rev (dropWhile isSpace s)))"

section \<open>Regular expressions with backtracking priorities\<close>

text \<open>
  The sources do all their parsing with regular expressions, so the embedding has a
  matcher for the fragment they use. A pattern is a term of \<open>regex\<close>; \<open>run\<close> returns
  every way the pattern can match at the current position, in the order in which a
  backtracking matcher tries them, so the head of the list is the match that
  \<^verbatim>\<open>exec\<close>, \<^verbatim>\<open>match\<close> and \<^verbatim>\<open>replace\<close> report. A position is the character before
  it (for \<^verbatim>\<open>^\<close>) and the text that remains.

  \<open>Chars P\<close> is a character class and \<open>NotChars P\<close> a negated one, \<open>Lit w\<close> a literal
  string, \<open>Rep True r\<close> is \<^verbatim>\<open>r*\<close> and \<open>Rep False r\<close> is \<^verbatim>\<open>r*?\<close>, \<open>Group n r\<close> is the
  capturing group number \<open>n\<close>, \<open>NotAhead r\<close> is \<^verbatim>\<open>(?!r)\<close>, \<open>Bol\<close> and \<open>Eol\<close> are \<^verbatim>\<open>^\<close> and
  \<^verbatim>\<open>$\<close>. Under the flag \<^verbatim>\<open>i\<close> a character is in a class when the class holds a
  character with the same upper-case form, and a negated class matches when the class
  does not. An iteration of a repetition that consumes nothing is given up, as the
  matcher of the sources does.
\<close>

datatype regex =
    Chars "char \<Rightarrow> bool"
  | NotChars "char \<Rightarrow> bool"
  | Lit string
  | Seq regex regex
  | Alt regex regex
  | Rep bool regex
  | Group nat regex
  | NotAhead regex
  | Bol
  | Eol

record flags =
  ignoreCase :: bool
  multiline :: bool

type_synonym captures = "nat \<rightharpoonup> string"

type_synonym mstate = "captures \<times> char option \<times> string"

definition charsMatch :: "flags \<Rightarrow> (char \<Rightarrow> bool) \<Rightarrow> char \<Rightarrow> bool" where
  "charsMatch f P ch =
     (P ch \<or> (ignoreCase f \<and> (P (toUpperChar ch) \<or> P (toLowerChar ch))))"

definition charEq :: "flags \<Rightarrow> char \<Rightarrow> char \<Rightarrow> bool" where
  "charEq f a b = (a = b \<or> (ignoreCase f \<and> toUpperChar a = toUpperChar b))"

fun litMatch :: "flags \<Rightarrow> string \<Rightarrow> mstate \<Rightarrow> mstate list" where
  "litMatch f [] st = [st]"
| "litMatch f (x # w) (c, p, []) = []"
| "litMatch f (x # w) (c, p, y # a) =
     (if charEq f x y then litMatch f w (c, Some y, a) else [])"

function run :: "flags \<Rightarrow> regex \<Rightarrow> mstate \<Rightarrow> mstate list" where
  "run f (Chars P) (c, p, a) =
     (case a of [] \<Rightarrow> []
      | y # a' \<Rightarrow> if charsMatch f P y then [(c, Some y, a')] else [])"
| "run f (NotChars P) (c, p, a) =
     (case a of [] \<Rightarrow> []
      | y # a' \<Rightarrow> if charsMatch f P y then [] else [(c, Some y, a')])"
| "run f (Lit w) (c, p, a) = litMatch f w (c, p, a)"
| "run f (Seq r1 r2) (c, p, a) = concat (map (run f r2) (run f r1 (c, p, a)))"
| "run f (Alt r1 r2) (c, p, a) = run f r1 (c, p, a) @ run f r2 (c, p, a)"
| "run f (Rep greedy r) (c, p, a) =
     (let more = concat (map (\<lambda>(c', p', a').
                    if length a' < length a then run f (Rep greedy r) (c', p', a') else [])
                  (run f r (c, p, a)))
      in if greedy then more @ [(c, p, a)] else (c, p, a) # more)"
| "run f (Group n r) (c, p, a) =
     map (\<lambda>(c', p', a'). (c'(n \<mapsto> take (length a - length a') a), p', a'))
       (run f r (c, p, a))"
| "run f (NotAhead r) (c, p, a) =
     (case run f r (c, p, a) of [] \<Rightarrow> [(c, p, a)] | _ # _ \<Rightarrow> [])"
| "run f Bol (c, p, a) =
     (case p of None \<Rightarrow> [(c, p, a)]
      | Some y \<Rightarrow> if multiline f \<and> isLineTerminator y then [(c, p, a)] else [])"
| "run f Eol (c, p, a) =
     (case a of [] \<Rightarrow> [(c, p, a)]
      | y # a' \<Rightarrow> if multiline f \<and> isLineTerminator y then [(c, p, a)] else [])"
  by pat_completeness auto
termination
  by (relation "inv_image (less_than <*lex*> less_than)
        (\<lambda>(f, r, c, p, a). (size r, length a))") auto

text \<open>The derived forms: \<^verbatim>\<open>r+\<close>, \<^verbatim>\<open>r+?\<close>, \<^verbatim>\<open>r*\<close>, \<^verbatim>\<open>r*?\<close>, \<^verbatim>\<open>r?\<close> and sequences.\<close>

definition star :: "regex \<Rightarrow> regex" where
  "star r = Rep True r"

definition lazyStar :: "regex \<Rightarrow> regex" where
  "lazyStar r = Rep False r"

definition oneOrMore :: "regex \<Rightarrow> regex" where
  "oneOrMore r = Seq r (Rep True r)"

definition lazyOneOrMore :: "regex \<Rightarrow> regex" where
  "lazyOneOrMore r = Seq r (Rep False r)"

definition opt :: "regex \<Rightarrow> regex" where
  "opt r = Alt r (Lit [])"

fun seqs :: "regex list \<Rightarrow> regex" where
  "seqs [] = Lit []"
| "seqs [r] = r"
| "seqs (r # rs) = Seq r (seqs rs)"

text \<open>The flags with which the sources use their patterns.\<close>

definition flags_i :: flags where
  "flags_i = \<lparr>ignoreCase = True, multiline = False\<rparr>"

definition flags_g :: flags where
  "flags_g = \<lparr>ignoreCase = False, multiline = False\<rparr>"

definition flags_gi :: flags where
  "flags_gi = \<lparr>ignoreCase = True, multiline = False\<rparr>"

definition flags_gim :: flags where
  "flags_gim = \<lparr>ignoreCase = True, multiline = True\<rparr>"

subsection \<open>What every match satisfies\<close>

text \<open>A match consumes a prefix of the remaining text: what is left is a suffix of it.\<close>

lemma litMatch_result:
  "st' \<in> set (litMatch f w (c, p, a)) \<Longrightarrow>
     \<exists>u p'. st' = (c, p', drop (length w) a) \<and> a = u @ drop (length w) a \<and> length u = length w
        \<and> list_all2 (charEq f) w u"
proof (induction w arbitrary: p a)
  case Nil
  then show ?case by simp
next
  case (Cons x w)
  show ?case
  proof (cases a)
    case Nil
    with Cons.prems show ?thesis by simp
  next
    case (Cons y a1)
    with Cons.prems have eq: "charEq f x y" and "st' \<in> set (litMatch f w (c, Some y, a1))"
      by (auto split: if_splits)
    from Cons.IH [OF this(2)] obtain u p' where
      "st' = (c, p', drop (length w) a1)" "a1 = u @ drop (length w) a1" "length u = length w"
      "list_all2 (charEq f) w u" by blast
    with Cons eq show ?thesis
      by (intro exI [of _ "y # u"] exI [of _ p']) simp
  qed
qed

lemmas run_Rep = run.simps(6)

declare run.simps(6) [simp del]

lemma run_Rep_mem:
  "st' \<in> set (run f (Rep greedy r) (c, p, a)) \<longleftrightarrow>
     st' = (c, p, a) \<or>
     (\<exists>c1 p1 a1. (c1, p1, a1) \<in> set (run f r (c, p, a)) \<and> length a1 < length a \<and>
        st' \<in> set (run f (Rep greedy r) (c1, p1, a1)))"
  by (subst run_Rep) (auto simp: Let_def split: if_splits)

lemma run_Seq_mem:
  "st' \<in> set (run f (Seq r1 r2) st) \<longleftrightarrow>
     (\<exists>st1. st1 \<in> set (run f r1 st) \<and> st' \<in> set (run f r2 st1))"
  by (cases st) auto

lemma run_suffix:
  "(c', p', a') \<in> set (run f r (c, p, a)) \<Longrightarrow> \<exists>u. a = u @ a'"
proof (induction f r "(c, p, a)" arbitrary: c p a c' p' a' rule: run.induct)
  case (1 f P c p a)
  then show ?case by (auto split: list.splits if_splits)
next
  case (2 f P c p a)
  then show ?case by (auto split: list.splits if_splits)
next
  case (3 f w c p a)
  then show ?case by (auto dest!: litMatch_result)
next
  case (4 f r1 r2 c p a)
  from "4.prems" obtain c1 p1 a1 where
    m1: "(c1, p1, a1) \<in> set (run f r1 (c, p, a))" and
    m2: "(c', p', a') \<in> set (run f r2 (c1, p1, a1))" by auto
  from "4.hyps"(1) [OF m1] obtain u where "a = u @ a1" by blast
  moreover from "4.hyps"(2) [OF m1 m2] obtain v where "a1 = v @ a'" by blast
  ultimately show ?case by simp
next
  case (5 f r1 r2 c p a)
  then show ?case by auto
next
  case (6 f greedy r c p a)
  show ?case
  proof (cases "(c', p', a') = (c, p, a)")
    case True
    then show ?thesis by simp
  next
    case False
    with "6.prems" obtain c1 p1 a1 where
      m1: "(c1, p1, a1) \<in> set (run f r (c, p, a))" and lt: "length a1 < length a" and
      m2: "(c', p', a') \<in> set (run f (Rep greedy r) (c1, p1, a1))"
      unfolding run_Rep_mem [of _ f greedy r c p a] by blast
    from "6.hyps"(1) [OF m1] obtain u where "a = u @ a1" by blast
    moreover from "6.hyps"(2) [OF m1 refl refl lt m2] obtain v where "a1 = v @ a'" by blast
    ultimately show ?thesis by simp
  qed
next
  case (7 f n r c p a)
  then show ?case by auto
next
  case (8 f r c p a)
  then show ?case by (auto split: list.splits)
next
  case (9 f c p a)
  then show ?case by (auto split: option.splits if_splits)
next
  case (10 f c p a)
  then show ?case by (auto split: list.splits if_splits)
qed

lemma run_length_le:
  "(c', p', a') \<in> set (run f r (c, p, a)) \<Longrightarrow> length a' \<le> length a"
  by (drule run_suffix) auto

lemma run_Seq_elim:
  assumes "st' \<in> set (run f (Seq r1 r2) (c, p, a))"
  obtains c1 p1 a1 where "(c1, p1, a1) \<in> set (run f r1 (c, p, a))"
    and "st' \<in> set (run f r2 (c1, p1, a1))" and "length a1 \<le> length a"
proof -
  from assms obtain st1 where 1: "st1 \<in> set (run f r1 (c, p, a))"
    and 2: "st' \<in> set (run f r2 st1)" by (auto simp: run_Seq_mem)
  obtain c1 p1 a1 where st1: "st1 = (c1, p1, a1)" by (cases st1)
  with 1 have "length a1 \<le> length a" by (auto dest: run_length_le)
  with 1 2 st1 that show thesis by blast
qed

lemma run_Seq_suffix:
  assumes "st' \<in> set (run f (Seq r1 r2) (c, p, a))"
  obtains c1 p1 a1 u where "(c1, p1, a1) \<in> set (run f r1 (c, p, a))"
    and "st' \<in> set (run f r2 (c1, p1, a1))" and "a = u @ a1"
proof -
  from assms obtain st1 where 1: "st1 \<in> set (run f r1 (c, p, a))"
    and 2: "st' \<in> set (run f r2 st1)" by (auto simp: run_Seq_mem)
  obtain c1 p1 a1 where st1: "st1 = (c1, p1, a1)" by (cases st1)
  with 1 obtain u where "a = u @ a1" by (auto dest: run_suffix)
  with 1 2 st1 that show thesis by blast
qed

lemma run_Group_Lit:
  assumes "(c', p', a') \<in> set (run f (Seq (Group n r) (Lit w)) (c, p, a))"
  shows "\<exists>v. c' n = Some v \<and> length v + length w + length a' = length a"
proof -
  from assms obtain c1 p1 a1 where
    g: "(c1, p1, a1) \<in> set (run f (Group n r) (c, p, a))" and
    l: "(c', p', a') \<in> set (run f (Lit w) (c1, p1, a1))" by (rule run_Seq_elim)
  from g obtain c0 where c1: "c1 = c0(n \<mapsto> take (length a - length a1) a)"
    and r: "(c0, p1, a1) \<in> set (run f r (c, p, a))" by auto
  from run_length_le [OF r] have le: "length a1 \<le> length a" .
  from l have "(c', p', a') \<in> set (litMatch f w (c1, p1, a1))" by simp
  from litMatch_result [OF this] obtain u where
    "c' = c1" "a' = drop (length w) a1" "a1 = u @ drop (length w) a1" "length u = length w"
    by auto
  then have "length a1 = length w + length a'" by (metis length_append)
  with c1 le \<open>c' = c1\<close> show ?thesis by simp
qed

subsection \<open>Searching, the exec loop and replace\<close>

text \<open>
  A match as the sources read it: \<open>fullMatch\<close> is \<^verbatim>\<open>match[0]\<close>, \<open>groups\<close> maps a group
  number to \<^verbatim>\<open>match[n]\<close> (absent when the group did not take part), \<open>matchStart\<close> is the
  text from the first character of the match on, \<open>matchEnd\<close> the position after it.
\<close>

record rmatch =
  matchStart :: string
  fullMatch :: string
  groups :: captures
  matchEnd :: "char option \<times> string"

definition mkMatch :: "string \<Rightarrow> mstate \<Rightarrow> rmatch" where
  "mkMatch a0 st = (case st of (c, p', a') \<Rightarrow>
     \<lparr>matchStart = a0, fullMatch = take (length a0 - length a') a0, groups = c,
      matchEnd = (p', a')\<rparr>)"

text \<open>\<open>search\<close> is one \<^verbatim>\<open>exec\<close>: the first position, from the current one on, where the
  pattern matches, with the match of highest priority there.\<close>

fun search :: "flags \<Rightarrow> regex \<Rightarrow> char option \<Rightarrow> string \<Rightarrow> rmatch option" where
  "search f r p a =
     (case run f r (Map.empty, p, a) of
        st # _ \<Rightarrow> Some (mkMatch a st)
      | [] \<Rightarrow> (case a of [] \<Rightarrow> None | y # a' \<Rightarrow> search f r (Some y) a'))"

declare search.simps [simp del]

lemma search_no_match:
  "run f r (Map.empty, p, a) = [] \<Longrightarrow>
     search f r p a = (case a of [] \<Rightarrow> None | y # a' \<Rightarrow> search f r (Some y) a')"
  by (subst search.simps) simp

lemma search_match:
  "run f r (Map.empty, p, a) = st # sts \<Longrightarrow> search f r p a = Some (mkMatch a st)"
  by (subst search.simps) simp

lemma search_matchStart_le:
  "search f r p a = Some m \<Longrightarrow> length (matchStart m) \<le> length a"
proof (induction a arbitrary: p)
  case Nil
  then show ?case
    by (cases "run f r (Map.empty, p, [])")
       (auto simp: search_no_match search_match mkMatch_def split: prod.splits)
next
  case (Cons y a)
  show ?case
  proof (cases "run f r (Map.empty, p, y # a)")
    case Nil
    with Cons.prems have "search f r (Some y) a = Some m"
      by (simp add: search_no_match)
    from Cons.IH [OF this] show ?thesis by simp
  next
    case (Cons st sts)
    with Cons.prems show ?thesis
      by (auto simp: search_match mkMatch_def split: prod.splits)
  qed
qed

lemma search_fullMatch:
  "search f r p a = Some m \<Longrightarrow>
     fullMatch m = take (length (matchStart m) - length (snd (matchEnd m))) (matchStart m)"
proof (induction a arbitrary: p)
  case Nil
  then show ?case
    by (cases "run f r (Map.empty, p, [])")
       (auto simp: search_no_match search_match mkMatch_def split: prod.splits)
next
  case (Cons y a)
  show ?case
  proof (cases "run f r (Map.empty, p, y # a)")
    case Nil
    with Cons.prems have "search f r (Some y) a = Some m"
      by (simp add: search_no_match)
    from Cons.IH [OF this] show ?thesis .
  next
    case (Cons st sts)
    with Cons.prems show ?thesis
      by (auto simp: search_match mkMatch_def split: prod.splits)
  qed
qed

lemma search_progress:
  assumes "search f r p a = Some m" and "fullMatch m \<noteq> []"
  shows "length (snd (matchEnd m)) < length a"
proof -
  from assms have "length (matchStart m) - length (snd (matchEnd m)) \<noteq> 0"
    using search_fullMatch [OF assms(1)] by auto
  with search_matchStart_le [OF assms(1)] show ?thesis by simp
qed

text \<open>
  The loop \<^verbatim>\<open>while ((match = regex.exec(text)) !== null)\<close> over a global pattern: each
  \<^verbatim>\<open>exec\<close> resumes at the end of the previous match. On an empty match the position
  does not advance, the next \<^verbatim>\<open>exec\<close> finds the same match again and the loop of the
  source never ends: the value is \<open>None\<close> then, and \<open>Some\<close> of the matches otherwise.
\<close>

function execAll :: "flags \<Rightarrow> regex \<Rightarrow> char option \<Rightarrow> string \<Rightarrow> rmatch list option" where
  "execAll f r p a =
     (case search f r p a of
        None \<Rightarrow> Some []
      | Some m \<Rightarrow>
          if fullMatch m = [] then None
          else map_option ((#) m) (execAll f r (fst (matchEnd m)) (snd (matchEnd m))))"
  by pat_completeness auto
termination
  by (relation "measure (\<lambda>(f, r, p, a). length a)") (auto dest: search_progress split: prod.splits)

lemma search_Some_run:
  "search f r p a = Some m \<Longrightarrow>
     \<exists>p0 a0 st sts. run f r (Map.empty, p0, a0) = st # sts \<and> m = mkMatch a0 st \<and>
        length a0 \<le> length a"
proof (induction a arbitrary: p)
  case Nil
  show ?case
  proof (cases "run f r (Map.empty, p, [])")
    case Nil
    with Nil.prems show ?thesis by (simp add: search_no_match)
  next
    case (Cons st sts)
    with Nil.prems have "m = mkMatch [] st" by (simp add: search_match)
    with Cons show ?thesis by blast
  qed
next
  case (Cons y a)
  show ?case
  proof (cases "run f r (Map.empty, p, y # a)")
    case Nil
    with Cons.prems have "search f r (Some y) a = Some m"
      by (simp add: search_no_match)
    from Cons.IH [OF this] show ?thesis by (metis le_SucI length_Cons)
  next
    case (Cons st sts)
    with Cons.prems have "m = mkMatch (y # a) st" by (simp add: search_match)
    with Cons show ?thesis by blast
  qed
qed

lemma search_matchEnd_le:
  assumes "search f r p a = Some m"
  shows "length (snd (matchEnd m)) \<le> length (matchStart m)"
proof -
  from search_Some_run [OF assms] obtain p0 a0 st sts where
    r: "run f r (Map.empty, p0, a0) = st # sts" and m: "m = mkMatch a0 st" by blast
  obtain c' p' a' where st: "st = (c', p', a')" by (cases st)
  with r have "(c', p', a') \<in> set (run f r (Map.empty, p0, a0))" by simp
  from run_length_le [OF this] m st show ?thesis by (simp add: mkMatch_def)
qed

text \<open>
  \<^verbatim>\<open>text.replace(regex, replacer)\<close> with a global pattern and a replacer function: every
  match, found as \<^verbatim>\<open>exec\<close> finds them, is replaced by what the replacer returns for
  it, and the text between the matches is kept. After an empty match the search
  resumes one character later.
\<close>

function replaceAll :: "flags \<Rightarrow> regex \<Rightarrow> (rmatch \<Rightarrow> string) \<Rightarrow> char option \<Rightarrow> string \<Rightarrow> string"
  where
  "replaceAll f r rep p a =
     (case search f r p a of
        None \<Rightarrow> a
      | Some m \<Rightarrow>
          take (length a - length (matchStart m)) a @ rep m @
          (if fullMatch m \<noteq> [] then replaceAll f r rep (fst (matchEnd m)) (snd (matchEnd m))
           else (case snd (matchEnd m) of
                   [] \<Rightarrow> []
                 | y # a' \<Rightarrow> y # replaceAll f r rep (Some y) a')))"
  by pat_completeness auto
termination
proof (relation "measure (\<lambda>(f, r, rep, p, a). length a)", goal_cases)
  case 1
  then show ?case by simp
next
  case (2 f r rep p a m)
  then show ?case by (auto dest: search_progress split: prod.splits)
next
  case (3 f r rep p a m y a')
  from search_matchEnd_le [OF 3(1)] search_matchStart_le [OF 3(1)] 3(3)
  show ?case by simp
qed

text \<open>\<^verbatim>\<open>text.replace(pattern, replacement)\<close> with a string pattern: the first occurrence
  only.\<close>

fun replaceFirst :: "string \<Rightarrow> string \<Rightarrow> string \<Rightarrow> string" where
  "replaceFirst pat rep s =
     (if take (length pat) s = pat then rep @ drop (length pat) s
      else (case s of [] \<Rightarrow> [] | y # s' \<Rightarrow> y # replaceFirst pat rep s'))"

declare replaceFirst.simps [simp del]

declare replaceAll.simps [simp del]

declare execAll.simps [simp del]

lemma search_length:
  assumes "search f r p a = Some m"
  shows "length a = (length a - length (matchStart m)) + length (fullMatch m)
           + length (snd (matchEnd m))"
  using search_matchStart_le [OF assms] search_matchEnd_le [OF assms] search_fullMatch [OF assms]
  by simp

lemma replaceAll_no_match: "search f r p a = None \<Longrightarrow> replaceAll f r rep p a = a"
  by (subst replaceAll.simps) simp

lemma replaceAll_match:
  "search f r p a = Some m \<Longrightarrow>
     replaceAll f r rep p a =
       take (length a - length (matchStart m)) a @ rep m @
       (if fullMatch m \<noteq> [] then replaceAll f r rep (fst (matchEnd m)) (snd (matchEnd m))
        else (case snd (matchEnd m) of
                [] \<Rightarrow> []
              | y # a' \<Rightarrow> y # replaceAll f r rep (Some y) a'))"
  by (subst replaceAll.simps) simp

lemma replaceAll_length_le:
  "(\<And>p a m. search f r p a = Some m \<Longrightarrow> length (rep m) \<le> length (fullMatch m)) \<Longrightarrow>
     length (replaceAll f r rep p a) \<le> length a"
proof (induction f r rep p a rule: replaceAll.induct)
  case (1 f r rep p a)
  show ?case
  proof (cases "search f r p a")
    case None
    then show ?thesis by (simp add: replaceAll_no_match)
  next
    case (Some m)
    note len = search_length [OF Some]
    have repm: "length (rep m) \<le> length (fullMatch m)" using "1.prems" Some by blast
    show ?thesis
    proof (cases "fullMatch m \<noteq> []")
      case True
      have "length (replaceAll f r rep (fst (matchEnd m)) (snd (matchEnd m)))
              \<le> length (snd (matchEnd m))"
        by (rule "1.IH"(1) [OF Some True]) (rule "1.prems")
      with len repm True show ?thesis
        by (simp add: replaceAll_match [OF Some])
    next
      case False
      show ?thesis
      proof (cases "snd (matchEnd m)")
        case Nil
        with len repm False show ?thesis
          by (simp add: replaceAll_match [OF Some])
      next
        case (Cons y a')
        have "length (replaceAll f r rep (Some y) a') \<le> length a'"
          by (rule "1.IH"(2) [OF Some False Cons]) (rule "1.prems")
        with len repm False Cons show ?thesis
          by (simp add: replaceAll_match [OF Some])
      qed
    qed
  qed
qed

lemma replaceAll_length_less:
  assumes rep: "\<And>p a m. search f r p a = Some m \<Longrightarrow> length (rep m) < length (fullMatch m)"
    and found: "search f r p a \<noteq> None"
  shows "length (replaceAll f r rep p a) < length a"
proof -
  from found obtain m where Some: "search f r p a = Some m" by auto
  note len = search_length [OF Some]
  have repm: "length (rep m) < length (fullMatch m)" using rep Some by blast
  then have ne: "fullMatch m \<noteq> []" by auto
  have "length (replaceAll f r rep (fst (matchEnd m)) (snd (matchEnd m)))
          \<le> length (snd (matchEnd m))"
    by (rule replaceAll_length_le) (use rep in \<open>auto simp: less_imp_le\<close>)
  with len repm ne show ?thesis
    by (simp add: replaceAll_match [OF Some])
qed

lemma execAll_no_match: "search f r p a = None \<Longrightarrow> execAll f r p a = Some []"
  by (subst execAll.simps) simp

lemma execAll_match:
  "search f r p a = Some m \<Longrightarrow>
     execAll f r p a =
       (if fullMatch m = [] then None
        else map_option ((#) m) (execAll f r (fst (matchEnd m)) (snd (matchEnd m))))"
  by (subst execAll.simps) simp

lemma search_Some_suffix:
  "search f r p a = Some m \<Longrightarrow>
     \<exists>u p0 st sts. a = u @ matchStart m \<and> run f r (Map.empty, p0, matchStart m) = st # sts"
proof (induction a arbitrary: p)
  case Nil
  show ?case
  proof (cases "run f r (Map.empty, p, [])")
    case Nil
    with Nil.prems show ?thesis by (simp add: search_no_match)
  next
    case (Cons st sts)
    with Nil.prems have "m = mkMatch [] st" by (simp add: search_match)
    then have "matchStart m = []" by (auto simp: mkMatch_def split: prod.splits)
    with Cons show ?thesis by (metis append_Nil)
  qed
next
  case (Cons y a)
  show ?case
  proof (cases "run f r (Map.empty, p, y # a)")
    case Nil
    with Cons.prems have "search f r (Some y) a = Some m"
      by (simp add: search_no_match)
    from Cons.IH [OF this] obtain u p0 st sts where
      "a = u @ matchStart m" "run f r (Map.empty, p0, matchStart m) = st # sts" by blast
    then have "y # a = (y # u) @ matchStart m" by simp
    with \<open>run f r (Map.empty, p0, matchStart m) = st # sts\<close> show ?thesis by blast
  next
    case (Cons st sts)
    with Cons.prems have "m = mkMatch (y # a) st" by (simp add: search_match)
    then have "matchStart m = y # a" by (auto simp: mkMatch_def split: prod.splits)
    with Cons show ?thesis by (metis append_Nil)
  qed
qed

lemma search_decomposition:
  assumes "search f r p a = Some m"
  shows "a = take (length a - length (matchStart m)) a @ fullMatch m @ snd (matchEnd m)"
proof -
  from search_Some_suffix [OF assms] obtain u p0 st sts where
    a: "a = u @ matchStart m" and r: "run f r (Map.empty, p0, matchStart m) = st # sts"
    by blast
  from search_Some_run [OF assms] obtain p1 a1 st1 sts1 where
    r1: "run f r (Map.empty, p1, a1) = st1 # sts1" and m: "m = mkMatch a1 st1" by blast
  obtain c' p' a' where st1: "st1 = (c', p', a')" by (cases st1)
  with r1 have "(c', p', a') \<in> set (run f r (Map.empty, p1, a1))" by simp
  from run_suffix [OF this] obtain w where w: "a1 = w @ a'" by blast
  from m st1 have ms: "matchStart m = a1" "snd (matchEnd m) = a'"
    "fullMatch m = take (length a1 - length a') a1"
    by (simp_all add: mkMatch_def)
  with w have "fullMatch m = w" by simp
  with ms w have "matchStart m = fullMatch m @ snd (matchEnd m)" by simp
  with a show ?thesis by (metis append_eq_conv_conj length_append add_diff_cancel_right')
qed

subsection \<open>Patterns that consume text\<close>

text \<open>A pattern that cannot match the empty string: every match of it makes progress,
  so the \<^verbatim>\<open>exec\<close> loop over it ends.\<close>

fun consuming :: "regex \<Rightarrow> bool" where
  "consuming (Chars P) = True"
| "consuming (NotChars P) = True"
| "consuming (Lit w) = (w \<noteq> [])"
| "consuming (Seq r1 r2) = (consuming r1 \<or> consuming r2)"
| "consuming (Alt r1 r2) = (consuming r1 \<and> consuming r2)"
| "consuming (Group n r) = consuming r"
| "consuming r = False"

lemma run_consuming:
  "consuming r \<Longrightarrow> (c', p', a') \<in> set (run f r (c, p, a)) \<Longrightarrow> length a' < length a"
proof (induction r arbitrary: c p a c' p' a')
  case (Chars P)
  then show ?case by (auto split: list.splits if_splits)
next
  case (NotChars P)
  then show ?case by (auto split: list.splits if_splits)
next
  case (Lit w)
  from Lit.prems(2) have "(c', p', a') \<in> set (litMatch f w (c, p, a))" by simp
  from litMatch_result [OF this] obtain u where
    "a' = drop (length w) a" "a = u @ drop (length w) a" "length u = length w" by auto
  moreover from Lit.prems(1) have "0 < length w" by simp
  ultimately show ?case by (metis length_append less_add_same_cancel2)
next
  case (Seq r1 r2)
  from Seq.prems(2) obtain c1 p1 a1 where
    1: "(c1, p1, a1) \<in> set (run f r1 (c, p, a))" and
    2: "(c', p', a') \<in> set (run f r2 (c1, p1, a1))" by (rule run_Seq_elim)
  from Seq.prems(1) have "consuming r1 \<or> consuming r2" by simp
  then show ?case
  proof
    assume "consuming r1"
    from Seq.IH(1) [OF this 1] run_length_le [OF 2] show ?thesis by simp
  next
    assume "consuming r2"
    from Seq.IH(2) [OF this 2] run_length_le [OF 1] show ?thesis by simp
  qed
next
  case (Alt r1 r2)
  then show ?case by auto
next
  case (Group n r)
  then show ?case by auto
qed simp_all

lemma search_consuming:
  assumes "consuming r" and "search f r p a = Some m"
  shows "fullMatch m \<noteq> []"
proof -
  from search_Some_run [OF assms(2)] obtain p0 a0 st sts where
    r: "run f r (Map.empty, p0, a0) = st # sts" and m: "m = mkMatch a0 st" by blast
  obtain c' p' a' where st: "st = (c', p', a')" by (cases st)
  with r have "(c', p', a') \<in> set (run f r (Map.empty, p0, a0))" by simp
  from run_consuming [OF assms(1) this] m st show ?thesis
    by (cases a0) (auto simp: mkMatch_def)
qed


lemma execAll_consuming:
  "consuming r \<Longrightarrow>
     \<exists>ms. execAll f r p a = Some ms
       \<and> sorted_wrt (\<lambda>m m'. length (matchStart m') < length (matchStart m)) ms
       \<and> list_all (\<lambda>m. length (matchStart m) \<le> length a \<and> 0 < length (matchStart m)) ms"
proof (induction f r p a rule: execAll.induct)
  case (1 f r p a)
  show ?case
  proof (cases "search f r p a")
    case None
    then show ?thesis by (simp add: execAll_no_match)
  next
    case (Some m)
    from search_consuming [OF "1.prems" Some] have ne: "fullMatch m \<noteq> []" .
    then have ne': "\<not> fullMatch m = []" by simp
    from "1.IH" [OF Some ne' "1.prems"] obtain ms where
      ms: "execAll f r (fst (matchEnd m)) (snd (matchEnd m)) = Some ms"
      "sorted_wrt (\<lambda>m m'. length (matchStart m') < length (matchStart m)) ms"
      "list_all (\<lambda>m'. length (matchStart m') \<le> length (snd (matchEnd m))
          \<and> 0 < length (matchStart m')) ms"
      by blast
    from search_fullMatch [OF Some] ne
    have lt: "length (snd (matchEnd m)) < length (matchStart m)" by auto
    from search_matchStart_le [OF Some] have le: "length (matchStart m) \<le> length a" .
    from ms(3) lt le have all: "list_all (\<lambda>m'. length (matchStart m') < length (matchStart m)
        \<and> length (matchStart m') \<le> length a \<and> 0 < length (matchStart m')) ms"
      by (auto simp: list_all_iff)
    from lt have pos: "0 < length (matchStart m)" by linarith
    have "execAll f r p a = Some (m # ms)"
      by (simp add: execAll_match [OF Some] ne ms(1))
    with ms(2) all le pos show ?thesis
      by (auto simp: list_all_iff)
  qed
qed


subsection \<open>The text between the matches\<close>

text \<open>The matches of an \<^verbatim>\<open>exec\<close> loop cut the text into the pieces between them and the
  matched spans. \<open>substituteMatches rep\<close> keeps the pieces and puts \<open>rep m\<close> in the place
  of the span of each match \<open>m\<close>. With the matched strings themselves it gives the text
  back, and a \<^verbatim>\<open>replace\<close> with the same global pattern is the substitution of what
  the replacer returns.\<close>

fun substituteMatches :: "(rmatch \<Rightarrow> string) \<Rightarrow> string \<Rightarrow> rmatch list \<Rightarrow> string" where
  "substituteMatches rep a [] = a"
| "substituteMatches rep a (m # ms) =
     take (length a - length (matchStart m)) a @ rep m
     @ substituteMatches rep (snd (matchEnd m)) ms"

lemma execAll_decomposition:
  "execAll f r p a = Some ms \<Longrightarrow> substituteMatches fullMatch a ms = a"
proof (induction f r p a arbitrary: ms rule: execAll.induct)
  case (1 f r p a)
  show ?case
  proof (cases "search f r p a")
    case None
    with "1.prems" show ?thesis by (simp add: execAll_no_match)
  next
    case (Some m)
    with "1.prems" have ne: "\<not> fullMatch m = []"
      by (auto simp: execAll_match split: if_splits)
    with "1.prems" Some obtain ms' where
      ms': "execAll f r (fst (matchEnd m)) (snd (matchEnd m)) = Some ms'" and ms: "ms = m # ms'"
      by (auto simp: execAll_match)
    from "1.IH" [OF Some ne ms'] search_decomposition [OF Some] ms show ?thesis by simp
  qed
qed

lemma replaceAll_substituteMatches:
  "execAll f r p a = Some ms \<Longrightarrow> replaceAll f r rep p a = substituteMatches rep a ms"
proof (induction f r p a arbitrary: ms rule: execAll.induct)
  case (1 f r p a)
  show ?case
  proof (cases "search f r p a")
    case None
    with "1.prems" show ?thesis
      by (simp add: execAll_no_match replaceAll_no_match)
  next
    case (Some m)
    with "1.prems" have ne: "\<not> fullMatch m = []"
      by (auto simp: execAll_match split: if_splits)
    with "1.prems" Some obtain ms' where
      ms': "execAll f r (fst (matchEnd m)) (snd (matchEnd m)) = Some ms'" and ms: "ms = m # ms'"
      by (auto simp: execAll_match)
    from "1.IH" [OF Some ne ms'] ne ms show ?thesis
      by (simp add: replaceAll_match [OF Some])
  qed
qed

subsection \<open>Groups do not change where a pattern matches\<close>

fun stripGroups :: "regex \<Rightarrow> regex" where
  "stripGroups (Group n r) = stripGroups r"
| "stripGroups (Seq r1 r2) = Seq (stripGroups r1) (stripGroups r2)"
| "stripGroups (Alt r1 r2) = Alt (stripGroups r1) (stripGroups r2)"
| "stripGroups (Rep g r) = Rep g (stripGroups r)"
| "stripGroups (NotAhead r) = NotAhead (stripGroups r)"
| "stripGroups r = r"

text \<open>Two lists of matcher states that agree on the positions, whatever the captures.\<close>

definition samePositions :: "mstate list \<Rightarrow> mstate list \<Rightarrow> bool" where
  "samePositions xs ys = (map snd xs = map snd ys)"

lemma samePositions_Nil [simp]: "samePositions [] []"
  by (simp add: samePositions_def)

lemma samePositions_append:
  "samePositions xs ys \<Longrightarrow> samePositions xs' ys' \<Longrightarrow> samePositions (xs @ xs') (ys @ ys')"
  by (simp add: samePositions_def)

lemma samePositions_empty: "samePositions xs ys \<Longrightarrow> (xs = []) = (ys = [])"
  by (auto simp: samePositions_def)

lemma samePositions_concat:
  assumes "samePositions xs ys"
    and "\<And>c c' p a. samePositions (g (c, p, a)) (h (c', p, a))"
  shows "samePositions (concat (map g xs)) (concat (map h ys))"
  using assms(1)
proof (induction xs arbitrary: ys)
  case Nil
  then show ?case by (simp add: samePositions_def)
next
  case (Cons x xs)
  from Cons.prems obtain y ys' where ys: "ys = y # ys'" and xy: "snd x = snd y"
    and rest: "samePositions xs ys'"
    by (cases ys) (auto simp: samePositions_def)
  obtain c p a where x: "x = (c, p, a)" by (cases x)
  with xy obtain c' where y: "y = (c', p, a)" by (cases y) auto
  from assms(2) [of c p a c'] Cons.IH [OF rest] show ?case
    by (simp add: ys x y samePositions_append)
qed

lemma litMatch_samePositions:
  "samePositions (litMatch f w (c, p, a)) (litMatch f w (c', p, a))"
proof (induction w arbitrary: p a)
  case Nil
  then show ?case by (simp add: samePositions_def)
next
  case (Cons x w)
  then show ?case by (cases a) (auto simp: samePositions_def)
qed

lemma run_stripGroups:
  "samePositions (run f (stripGroups r) (c, p, a)) (run f r (c', p, a))"
proof (induction r arbitrary: c c' p a)
  case (Chars P)
  then show ?case by (cases a) (auto simp: samePositions_def)
next
  case (NotChars P)
  then show ?case by (cases a) (auto simp: samePositions_def)
next
  case (Lit w)
  then show ?case by (simp add: litMatch_samePositions)
next
  case (Seq r1 r2)
  have "samePositions (concat (map (run f (stripGroups r2)) (run f (stripGroups r1) (c, p, a))))
          (concat (map (run f r2) (run f r1 (c', p, a))))"
    by (rule samePositions_concat) (rule Seq.IH)+
  then show ?case by simp
next
  case (Alt r1 r2)
  from Alt.IH show ?case by (simp add: samePositions_append)
next
  case (Rep g r)
  show ?case
  proof (induction "length a" arbitrary: c c' p a rule: less_induct)
    case less
    let ?G = "\<lambda>st. case st of (c1, p1, a1) \<Rightarrow>
       if length a1 < length a then run f (Rep g (stripGroups r)) (c1, p1, a1) else []"
    let ?H = "\<lambda>st. case st of (c1, p1, a1) \<Rightarrow>
       if length a1 < length a then run f (Rep g r) (c1, p1, a1) else []"
    have more: "samePositions (concat (map ?G (run f (stripGroups r) (c, p, a))))
        (concat (map ?H (run f r (c', p, a))))"
    proof (rule samePositions_concat)
      show "samePositions (run f (stripGroups r) (c, p, a)) (run f r (c', p, a))"
        by (rule Rep.IH)
    next
      fix c1 c1' p1 a1
      show "samePositions (?G (c1, p1, a1)) (?H (c1', p1, a1))"
        using less [of a1 c1 p1 c1'] by simp
    qed
    have here: "samePositions [(c, p, a)] [(c', p, a)]" by (simp add: samePositions_def)
    show ?case
    proof (cases g)
      case True
      then have g: "g = True" by simp
      show ?thesis
        using samePositions_append [OF more here] unfolding g
        by (simp add: run_Rep [of f True] Let_def)
    next
      case False
      then have g: "g = False" by simp
      show ?thesis
        using samePositions_append [OF here more] unfolding g
        by (simp add: run_Rep [of f False] Let_def)
    qed
  qed
next
  case (Group n r)
  from Group.IH [of c p a c'] show ?case
    by (simp add: samePositions_def o_def case_prod_unfold)
next
  case (NotAhead r)
  from samePositions_empty [OF NotAhead.IH [of c p a c']] show ?case
    by (auto simp: samePositions_def split: list.splits)
next
  case Bol
  then show ?case by (auto simp: samePositions_def split: option.splits)
next
  case Eol
  then show ?case by (cases a) (auto simp: samePositions_def)
qed

definition sameSpan :: "rmatch \<Rightarrow> rmatch \<Rightarrow> bool" where
  "sameSpan m m' = (matchStart m = matchStart m' \<and> fullMatch m = fullMatch m'
      \<and> matchEnd m = matchEnd m')"

lemma search_stripGroups:
  "rel_option sameSpan (search f (stripGroups r) p a) (search f r p a)"
proof (induction a arbitrary: p)
  case Nil
  show ?case
  proof (cases "run f r (Map.empty, p, [])")
    case Nil
    with samePositions_empty [OF run_stripGroups [of f r Map.empty p "[]" Map.empty]]
    have "run f (stripGroups r) (Map.empty, p, []) = []" by simp
    with Nil show ?thesis by (simp add: search_no_match)
  next
    case (Cons st sts)
    with run_stripGroups [of f r Map.empty p "[]" Map.empty]
    obtain st' sts' where s: "run f (stripGroups r) (Map.empty, p, []) = st' # sts'"
      and "snd st' = snd st"
      by (cases "run f (stripGroups r) (Map.empty, p, [])") (auto simp: samePositions_def)
    then show ?thesis
      by (auto simp: search_match [OF Cons] search_match [OF s] sameSpan_def mkMatch_def
          split: prod.splits)
  qed
next
  case (Cons y a)
  show ?case
  proof (cases "run f r (Map.empty, p, y # a)")
    case Nil
    with samePositions_empty [OF run_stripGroups [of f r Map.empty p "y # a" Map.empty]]
    have "run f (stripGroups r) (Map.empty, p, y # a) = []" by simp
    with Nil Cons.IH [of "Some y"] show ?thesis by (simp add: search_no_match)
  next
    case (Cons st sts)
    with run_stripGroups [of f r Map.empty p "y # a" Map.empty]
    obtain st' sts' where s: "run f (stripGroups r) (Map.empty, p, y # a) = st' # sts'"
      and "snd st' = snd st"
      by (cases "run f (stripGroups r) (Map.empty, p, y # a)") (auto simp: samePositions_def)
    then show ?thesis
      by (auto simp: search_match [OF Cons] search_match [OF s] sameSpan_def mkMatch_def
          split: prod.splits)
  qed
qed

lemma replaceAll_stripGroups:
  "execAll f r p a = Some ms \<Longrightarrow>
     replaceAll f (stripGroups r) (\<lambda>m. w) p a = substituteMatches (\<lambda>m. w) a ms"
proof (induction f r p a arbitrary: ms rule: execAll.induct)
  case (1 f r p a)
  show ?case
  proof (cases "search f r p a")
    case None
    with search_stripGroups [of f r p a] have "search f (stripGroups r) p a = None" by simp
    with None "1.prems" show ?thesis
      by (simp add: execAll_no_match replaceAll_no_match)
  next
    case (Some m)
    with "1.prems" have ne: "\<not> fullMatch m = []"
      by (auto simp: execAll_match split: if_splits)
    with "1.prems" Some obtain ms' where
      ms': "execAll f r (fst (matchEnd m)) (snd (matchEnd m)) = Some ms'" and ms: "ms = m # ms'"
      by (auto simp: execAll_match)
    from Some search_stripGroups [of f r p a] obtain m' where
      m': "search f (stripGroups r) p a = Some m'" and span: "sameSpan m' m"
      by (cases "search f (stripGroups r) p a") auto
    from "1.IH" [OF Some ne ms'] span ne ms show ?thesis
      by (simp add: replaceAll_match [OF m'] sameSpan_def)
  qed
qed

subsection \<open>Patterns between two literals\<close>

lemma litMatch_position_free:
  "(litMatch f w (c, p, a) = []) = (litMatch f w (c', p', a) = [])"
proof (induction w arbitrary: a p p')
  case Nil
  then show ?case by simp
next
  case (Cons x w)
  then show ?case by (cases a) auto
qed

text \<open>A literal that matches somewhere in the text is found by the search.\<close>

lemma search_Lit_found:
  "litMatch f w (c1, p1, a1) \<noteq> [] \<Longrightarrow> search f (Lit w) p (u @ a1) \<noteq> None"
proof (induction u arbitrary: p)
  case Nil
  from Nil litMatch_position_free [of f w c1 p1 a1 Map.empty p]
  have "run f (Lit w) (Map.empty, p, a1) \<noteq> []" by simp
  then obtain st sts where "run f (Lit w) (Map.empty, p, a1) = st # sts"
    by (cases "run f (Lit w) (Map.empty, p, a1)") auto
  from search_match [OF this] show ?case by simp
next
  case (Cons y u)
  show ?case
  proof (cases "run f (Lit w) (Map.empty, p, (y # u) @ a1)")
    case Nil
    from search_no_match [OF this] Cons.IH [OF Cons.prems, of "Some y"] show ?thesis by simp
  next
    case (Cons st sts)
    from search_match [OF this] show ?thesis by simp
  qed
qed

text \<open>A match of a pattern that starts with a literal and ends with a literal contains
  both: without an occurrence of either in the text there is no match.\<close>

lemma run_first_literal:
  "run f (Seq (Lit w) r) (c, p, a) \<noteq> [] \<Longrightarrow> litMatch f w (c, p, a) \<noteq> []"
  by auto

lemma run_last_literal:
  assumes "run f (Seq r1 (Seq r2 (Seq r3 (Seq r4 (Seq r5 (Lit w)))))) (c, p, a) \<noteq> []"
  shows "\<exists>u c' p' a'. a = u @ a' \<and> litMatch f w (c', p', a') \<noteq> []"
proof -
  from hd_in_set [OF assms] obtain st where
    "st \<in> set (run f (Seq r1 (Seq r2 (Seq r3 (Seq r4 (Seq r5 (Lit w)))))) (c, p, a))"
    by blast
  then obtain c1 p1 a1 u1 where
    t1: "st \<in> set (run f (Seq r2 (Seq r3 (Seq r4 (Seq r5 (Lit w))))) (c1, p1, a1))"
    and s1: "a = u1 @ a1" by (rule run_Seq_suffix)
  from t1 obtain c2 p2 a2 u2 where
    t2: "st \<in> set (run f (Seq r3 (Seq r4 (Seq r5 (Lit w)))) (c2, p2, a2))"
    and s2: "a1 = u2 @ a2" by (rule run_Seq_suffix)
  from t2 obtain c3 p3 a3 u3 where
    t3: "st \<in> set (run f (Seq r4 (Seq r5 (Lit w))) (c3, p3, a3))"
    and s3: "a2 = u3 @ a3" by (rule run_Seq_suffix)
  from t3 obtain c4 p4 a4 u4 where
    t4: "st \<in> set (run f (Seq r5 (Lit w)) (c4, p4, a4))"
    and s4: "a3 = u4 @ a4" by (rule run_Seq_suffix)
  from t4 obtain c5 p5 a5 u5 where
    t5: "st \<in> set (run f (Lit w) (c5, p5, a5))"
    and s5: "a4 = u5 @ a5" by (rule run_Seq_suffix)
  from t5 have "litMatch f w (c5, p5, a5) \<noteq> []" by auto
  moreover from s1 s2 s3 s4 s5 have "a = (u1 @ u2 @ u3 @ u4 @ u5) @ a5" by simp
  ultimately show ?thesis by blast
qed

lemma conditional_needs_tokens:
  assumes "search f (Seq (Lit w1) (Seq r2 (Seq r3 (Seq r4 (Seq r5 (Lit w2)))))) p a \<noteq> None"
  shows "search f (Lit w1) p a \<noteq> None" and "search f (Lit w2) p a \<noteq> None"
proof -
  let ?R = "Seq (Lit w1) (Seq r2 (Seq r3 (Seq r4 (Seq r5 (Lit w2)))))"
  from assms obtain m where "search f ?R p a = Some m" by auto
  from search_Some_suffix [OF this] obtain u p0 st sts where
    a: "a = u @ matchStart m" and r: "run f ?R (Map.empty, p0, matchStart m) = st # sts"
    by blast
  from r have ne: "run f ?R (Map.empty, p0, matchStart m) \<noteq> []" by simp
  from run_first_literal [OF ne] have "litMatch f w1 (Map.empty, p0, matchStart m) \<noteq> []" .
  from search_Lit_found [OF this, of p u] a show "search f (Lit w1) p a \<noteq> None" by simp
  from run_last_literal [OF ne] obtain u' c' p' a' where
    "matchStart m = u' @ a'" "litMatch f w2 (c', p', a') \<noteq> []" by blast
  with search_Lit_found [of f w2 c' p' a' p "u @ u'"] a
  show "search f (Lit w2) p a \<noteq> None" by simp
qed

subsection \<open>A greedy run of one character class\<close>

definition prevAfter :: "char option \<Rightarrow> string \<Rightarrow> char option" where
  "prevAfter p u = (if u = [] then p else Some (last u))"

lemma run_star_Chars_Nil:
  "run f (Rep g (Chars P)) (c, p, []) = [(c, p, [])]"
  by (subst run_Rep) simp

lemma run_star_Chars_no:
  "\<not> charsMatch f P y \<Longrightarrow> run f (Rep g (Chars P)) (c, p, y # a) = [(c, p, y # a)]"
  by (subst run_Rep) simp

lemma run_star_Chars_yes:
  "charsMatch f P y \<Longrightarrow>
     run f (Rep True (Chars P)) (c, p, y # a) =
       run f (Rep True (Chars P)) (c, Some y, a) @ [(c, p, y # a)]"
  by (subst run_Rep) simp

text \<open>When what follows the greedy run cannot start with a character of the class, only
  the longest run is continued.\<close>

lemma star_Chars_then:
  assumes K: "\<And>c p y a. charsMatch f P y \<Longrightarrow> K (c, p, y # a) = []"
    and u: "list_all (charsMatch f P) u"
    and rest: "rest = [] \<or> \<not> charsMatch f P (hd rest)"
  shows "concat (map K (run f (Rep True (Chars P)) (c, p, u @ rest))) = K (c, prevAfter p u, rest)"
  using u
proof (induction u arbitrary: p)
  case Nil
  show ?case
  proof (cases rest)
    case Nil
    then show ?thesis by (simp add: run_star_Chars_Nil prevAfter_def)
  next
    case (Cons y r)
    with rest have "\<not> charsMatch f P y" by simp
    with Cons show ?thesis by (simp add: run_star_Chars_no prevAfter_def)
  qed
next
  case (Cons x u)
  then have x: "charsMatch f P x" and u: "list_all (charsMatch f P) u" by simp_all
  have "prevAfter (Some x) u = prevAfter p (x # u)" by (simp add: prevAfter_def)
  with Cons.IH [OF u, of "Some x"] K [OF x] x show ?case
    by (simp add: run_star_Chars_yes)
qed

lemma oneOrMore_Chars_then:
  assumes K: "\<And>c p y a. charsMatch f P y \<Longrightarrow> K (c, p, y # a) = []"
    and u: "list_all (charsMatch f P) u"
    and rest: "rest = [] \<or> \<not> charsMatch f P (hd rest)"
  shows "concat (map K (run f (oneOrMore (Chars P)) (c, p, u @ rest))) =
           (if u = [] then [] else K (c, prevAfter p u, rest))"
proof (cases u)
  case Nil
  show ?thesis
  proof (cases rest)
    case Nil
    with \<open>u = []\<close> show ?thesis by (simp add: oneOrMore_def)
  next
    case (Cons y r)
    with rest have "\<not> charsMatch f P y" by simp
    with Cons \<open>u = []\<close> show ?thesis by (simp add: oneOrMore_def)
  qed
next
  case (Cons x u')
  with u have x: "charsMatch f P x" and u': "list_all (charsMatch f P) u'" by simp_all
  have "prevAfter (Some x) u' = prevAfter p (x # u')" by (simp add: prevAfter_def)
  moreover have "concat (map K (run f (Rep True (Chars P)) (c, Some x, u' @ rest)))
      = K (c, prevAfter (Some x) u', rest)"
    using u' rest by (intro star_Chars_then) (rule K)
  ultimately show ?thesis using x Cons
    by (simp add: oneOrMore_def)
qed

lemma takeWhile_dropWhile_rest:
  "dropWhile P s = [] \<or> \<not> P (hd (dropWhile P s))"
  by (metis hd_dropWhile)

subsection \<open>Character classes under the flag \<^verbatim>\<open>i\<close>\<close>

lemma toUpperChar_cases:
  "toUpperChar ch = ch \<or> toUpperChar ch \<in> set ''ABCDEFGHIJKLMNOPQRSTUVWXYZ''"
  by (simp add: toUpperChar_def)

lemma toLowerChar_cases:
  "toLowerChar ch = ch \<or> toLowerChar ch \<in> set ''abcdefghijklmnopqrstuvwxyz''"
  by (simp add: toLowerChar_def)

lemma letter_not_digit:
  "x \<in> set ''ABCDEFGHIJKLMNOPQRSTUVWXYZ'' \<Longrightarrow> \<not> isDigit x"
  "x \<in> set ''abcdefghijklmnopqrstuvwxyz'' \<Longrightarrow> \<not> isDigit x"
  by (auto simp: isDigit_def)

lemma charsMatch_isDigit [simp]: "charsMatch f isDigit ch = isDigit ch"
  using toUpperChar_cases [of ch] toLowerChar_cases [of ch] letter_not_digit
  unfolding charsMatch_def by metis

text \<open>\<^verbatim>\<open>[a-e]\<close> under the flag \<^verbatim>\<open>i\<close>.\<close>

definition isChoiceLetterAnyCase :: "char \<Rightarrow> bool" where
  "isChoiceLetterAnyCase ch = (ch \<in> set ''abcdeABCDE'')"

lemma upper_not_choiceLetter:
  "x \<in> set ''ABCDEFGHIJKLMNOPQRSTUVWXYZ'' \<Longrightarrow> \<not> isChoiceLetter x"
  by (auto simp: isChoiceLetter_def)

lemma isChoiceLetter_toLowerChar:
  "isChoiceLetter (toLowerChar ch) = isChoiceLetterAnyCase ch"
  by (simp add: toLowerChar_def isChoiceLetter_def isChoiceLetterAnyCase_def)

lemma isChoiceLetter_fixed:
  assumes "isChoiceLetter ch"
  shows "toLowerChar ch = ch"
proof -
  from assms have "ch = CHR ''a'' \<or> ch = CHR ''b'' \<or> ch = CHR ''c'' \<or> ch = CHR ''d''
      \<or> ch = CHR ''e''"
    by (simp add: isChoiceLetter_def)
  then show ?thesis by (elim disjE) (simp_all add: toLowerChar_def)
qed

lemma charsMatch_isChoiceLetter [simp]:
  "charsMatch flags_i isChoiceLetter ch = isChoiceLetterAnyCase ch"
proof -
  have "isChoiceLetter (toUpperChar ch) \<Longrightarrow> isChoiceLetter ch"
    using toUpperChar_cases [of ch] upper_not_choiceLetter by metis
  moreover have "isChoiceLetter ch \<Longrightarrow> isChoiceLetterAnyCase ch"
    by (auto simp: isChoiceLetter_def isChoiceLetterAnyCase_def)
  ultimately show ?thesis
    by (auto simp: charsMatch_def flags_i_def isChoiceLetter_toLowerChar)
qed

lemma charsMatch_isChoiceLetter_fun [simp]:
  "charsMatch flags_i isChoiceLetter = isChoiceLetterAnyCase"
  by (rule ext) simp

lemma charsMatch_isDigit_fun [simp]: "charsMatch f isDigit = isDigit"
  by (rule ext) simp

lemma digit_not_choiceLetter: "isDigit y \<Longrightarrow> \<not> isChoiceLetterAnyCase y"
  by (auto simp: isDigit_def isChoiceLetterAnyCase_def)

subsection \<open>Anchors and groups\<close>

lemma run_Bol_later:
  "\<not> multiline f \<Longrightarrow> run f (Seq Bol r) (c, Some y, a) = []"
  by simp

lemma search_Bol_later:
  "\<not> multiline f \<Longrightarrow> search f (Seq Bol r) (Some y) a = None"
proof (induction a arbitrary: y)
  case Nil
  then show ?case by (simp add: search_no_match [OF run_Bol_later])
next
  case (Cons x a)
  then show ?case by (simp add: search_no_match [OF run_Bol_later])
qed

lemma run_Eol_after:
  "\<not> multiline f \<Longrightarrow> run f Eol (c, p, a) = (if a = [] then [(c, p, a)] else [])"
  by (cases a) simp_all

lemma run_Bol_first: "run f (Seq Bol r) (c, None, a) = run f r (c, None, a)"
  by simp

lemma run_Group_then:
  "run f (Seq (Group n r) r2) (c, p, a) =
     concat (map (\<lambda>st. run f r2 (case st of (c', p', a') \<Rightarrow>
        (c'(n \<mapsto> take (length a - length a') a), p', a'))) (run f r (c, p, a)))"
  by (simp add: map_map o_def case_prod_unfold)

lemma take_length_diff: "take (length (u @ rest) - length rest) (u @ rest) = u"
  by simp

section \<open>Page ids\<close>

text \<open>
  \<^verbatim>\<open>parseInt(digits, 10)\<close> on a string of decimal digits and the rendering
  \<^verbatim>\<open>`${n}`\<close> of a number in a template. Page numbers are natural numbers here; the
  sources hold them in double-precision numbers, which are exact up to \<open>2^53\<close>.
\<close>

definition digitValue :: "char \<Rightarrow> nat" where
  "digitValue ch =
     (case map_of (zip ''0123456789'' [0, 1, 2, 3, 4, 5, 6, 7, 8, 9]) ch of
        Some d \<Rightarrow> d | None \<Rightarrow> 0)"

definition parseInt :: "string \<Rightarrow> nat" where
  "parseInt ds = foldl (\<lambda>n ch. 10 * n + digitValue ch) 0 ds"

definition digitChar :: "nat \<Rightarrow> char" where
  "digitChar d = ''0123456789'' ! d"

fun numberToString :: "nat \<Rightarrow> string" where
  "numberToString n =
     (if n < 10 then [digitChar n] else numberToString (n div 10) @ [digitChar (n mod 10)])"

declare numberToString.simps [simp del]

text \<open>\<^verbatim>\<open>/^(\d+)([a-e]*)$/i\<close>\<close>

definition pageIdRegex :: regex where
  "pageIdRegex =
     seqs [Bol, Group 1 (oneOrMore (Chars isDigit)), Group 2 (star (Chars isChoiceLetter)), Eol]"

record ParsedPageId =
  num :: nat
  path :: string

text \<open>\<^verbatim>\<open>id.match(regex)\<close> without the global flag is one \<^verbatim>\<open>exec\<close> from the start of the
  string. Both groups take part in every match of this pattern.\<close>

definition parsePageId :: "string \<Rightarrow> ParsedPageId option" where
  "parsePageId pid =
     (case search flags_i pageIdRegex None pid of
        None \<Rightarrow> None
      | Some m \<Rightarrow>
          (case (groups m 1, groups m 2) of
             (Some digits, Some letters) \<Rightarrow>
               Some \<lparr>num = parseInt digits, path = toLowerCase letters\<rparr>
           | _ \<Rightarrow> None))"

text \<open>\<open>formatSaveCode\<close> of \<^verbatim>\<open>shared/format.ts\<close>: the string form of a page id.\<close>

definition formatSaveCode :: "nat \<Rightarrow> string \<Rightarrow> string" where
  "formatSaveCode page path' =
     (if page = 1 \<and> path' = [] then ''1'' else numberToString page @ path')"

subsection \<open>What \<open>parsePageId\<close> computes\<close>

text \<open>The pattern behind the digits: \<^verbatim>\<open>([a-e]*)$\<close>.\<close>

lemma run_letters_Eol_split:
  assumes u: "list_all isChoiceLetterAnyCase u"
    and rest: "rest = [] \<or> \<not> isChoiceLetterAnyCase (hd rest)"
  shows "run flags_i (Seq (Group 2 (star (Chars isChoiceLetter))) Eol) (c, p, u @ rest) =
     (if rest = [] then [(c(2 \<mapsto> u), prevAfter p u, [])] else [])"
proof -
  let ?K = "\<lambda>st. run flags_i Eol (case st of (c', p', a') \<Rightarrow>
              (c'(2 \<mapsto> take (length (u @ rest) - length a') (u @ rest)), p', a'))"
  have K: "\<And>c p y a'. charsMatch flags_i isChoiceLetter y \<Longrightarrow> ?K (c, p, y # a') = []"
    by (simp add: flags_i_def)
  have "run flags_i (Seq (Group 2 (star (Chars isChoiceLetter))) Eol) (c, p, u @ rest)
      = concat (map ?K (run flags_i (Rep True (Chars isChoiceLetter)) (c, p, u @ rest)))"
    unfolding star_def by (simp only: run_Group_then)
  also have "\<dots> = ?K (c, prevAfter p u, rest)"
  proof (rule star_Chars_then)
    show "list_all (charsMatch flags_i isChoiceLetter) u" using u by simp
    show "rest = [] \<or> \<not> charsMatch flags_i isChoiceLetter (hd rest)" using rest by simp
  qed (rule K)
  also have "\<dots> = (if rest = [] then [(c(2 \<mapsto> u), prevAfter p u, [])] else [])"
    by (cases rest) (simp_all add: flags_i_def)
  finally show ?thesis .
qed

lemma run_letters_Eol:
  "run flags_i (Seq (Group 2 (star (Chars isChoiceLetter))) Eol) (c, p, a) =
     (if list_all isChoiceLetterAnyCase a then [(c(2 \<mapsto> a), prevAfter p a, [])] else [])"
proof (cases "list_all isChoiceLetterAnyCase a")
  case True
  with run_letters_Eol_split [of a "[]" c p] show ?thesis by simp
next
  case False
  let ?ls = "takeWhile isChoiceLetterAnyCase a" and ?rest = "dropWhile isChoiceLetterAnyCase a"
  from False have ne: "?rest \<noteq> []" by (simp add: list_all_iff)
  have "list_all isChoiceLetterAnyCase ?ls"
    by (simp add: list_all_iff) (meson set_takeWhileD)
  moreover have "?rest = [] \<or> \<not> isChoiceLetterAnyCase (hd ?rest)"
    using hd_dropWhile [of isChoiceLetterAnyCase a] by auto
  ultimately have "run flags_i (Seq (Group 2 (star (Chars isChoiceLetter))) Eol)
      (c, p, ?ls @ ?rest) = (if ?rest = [] then [(c(2 \<mapsto> ?ls), prevAfter p ?ls, [])] else [])"
    by (rule run_letters_Eol_split)
  with ne False show ?thesis by simp
qed

lemma run_pageIdRegex_split:
  assumes u: "list_all isDigit u" and rest: "rest = [] \<or> \<not> isDigit (hd rest)"
  shows "run flags_i pageIdRegex (Map.empty, None, u @ rest) =
     (if u \<noteq> [] \<and> list_all isChoiceLetterAnyCase rest
      then [([1 \<mapsto> u, 2 \<mapsto> rest], prevAfter (prevAfter None u) rest, [])] else [])"
proof -
  let ?R2 = "Seq (Group 2 (star (Chars isChoiceLetter))) Eol"
  let ?K = "\<lambda>st. run flags_i ?R2 (case st of (c', p', a') \<Rightarrow>
              (c'(1 \<mapsto> take (length (u @ rest) - length a') (u @ rest)), p', a'))"
  have K: "\<And>c p y a'. charsMatch flags_i isDigit y \<Longrightarrow> ?K (c, p, y # a') = []"
    by (simp add: run_letters_Eol digit_not_choiceLetter del: run.simps)
  have "run flags_i pageIdRegex (Map.empty, None, u @ rest)
      = concat (map ?K (run flags_i (oneOrMore (Chars isDigit)) (Map.empty, None, u @ rest)))"
    unfolding pageIdRegex_def seqs.simps by (simp only: run_Bol_first run_Group_then)
  also have "\<dots> = (if u = [] then [] else ?K (Map.empty, prevAfter None u, rest))"
  proof (rule oneOrMore_Chars_then)
    show "list_all (charsMatch flags_i isDigit) u" using u by simp
    show "rest = [] \<or> \<not> charsMatch flags_i isDigit (hd rest)" using rest by simp
  qed (rule K)
  also have "\<dots> = (if u \<noteq> [] \<and> list_all isChoiceLetterAnyCase rest
      then [([1 \<mapsto> u, 2 \<mapsto> rest], prevAfter (prevAfter None u) rest, [])] else [])"
    by (simp add: run_letters_Eol del: run.simps)
  finally show ?thesis .
qed

lemma run_pageIdRegex:
  "run flags_i pageIdRegex (Map.empty, None, s) =
     (if takeWhile isDigit s \<noteq> [] \<and> list_all isChoiceLetterAnyCase (dropWhile isDigit s)
      then [([1 \<mapsto> takeWhile isDigit s, 2 \<mapsto> dropWhile isDigit s],
             prevAfter (prevAfter None (takeWhile isDigit s)) (dropWhile isDigit s), [])]
      else [])"
proof -
  have "list_all isDigit (takeWhile isDigit s)"
    by (simp add: list_all_iff) (meson set_takeWhileD)
  moreover have "dropWhile isDigit s = [] \<or> \<not> isDigit (hd (dropWhile isDigit s))"
    using hd_dropWhile [of isDigit s] by auto
  ultimately show ?thesis
    using run_pageIdRegex_split [of "takeWhile isDigit s" "dropWhile isDigit s"] by simp
qed

text \<open>\<open>parsePageId\<close> takes the longest run of digits, requires it to be non-empty and the
  rest of the string to be letters \<^verbatim>\<open>a\<close> to \<^verbatim>\<open>e\<close> in either case.\<close>

lemma parsePageId_eq:
  "parsePageId s =
     (if takeWhile isDigit s \<noteq> [] \<and> list_all isChoiceLetterAnyCase (dropWhile isDigit s)
      then Some \<lparr>num = parseInt (takeWhile isDigit s),
                  path = toLowerCase (dropWhile isDigit s)\<rparr>
      else None)"
proof (cases "takeWhile isDigit s \<noteq> [] \<and> list_all isChoiceLetterAnyCase (dropWhile isDigit s)")
  case True
  then have "run flags_i pageIdRegex (Map.empty, None, s) =
      [([1 \<mapsto> takeWhile isDigit s, 2 \<mapsto> dropWhile isDigit s],
        prevAfter (prevAfter None (takeWhile isDigit s)) (dropWhile isDigit s), [])]"
    by (simp add: run_pageIdRegex)
  from search_match [OF this] True show ?thesis
    by (simp add: parsePageId_def mkMatch_def)
next
  case False
  then have no: "run flags_i pageIdRegex (Map.empty, None, s) = []"
    by (simp add: run_pageIdRegex)
  have "search flags_i pageIdRegex None s
      = (case s of [] \<Rightarrow> None | y # a' \<Rightarrow> search flags_i pageIdRegex (Some y) a')"
    by (rule search_no_match [OF no])
  also have "\<dots> = None"
    by (cases s) (simp_all add: pageIdRegex_def search_Bol_later flags_i_def)
  finally have "search flags_i pageIdRegex None s = None" .
  with False show ?thesis by (simp add: parsePageId_def)
qed

subsection \<open>Decimal numerals\<close>

lemma digit_cases:
  "isDigit d \<longleftrightarrow> d = CHR ''0'' \<or> d = CHR ''1'' \<or> d = CHR ''2'' \<or> d = CHR ''3'' \<or> d = CHR ''4''
     \<or> d = CHR ''5'' \<or> d = CHR ''6'' \<or> d = CHR ''7'' \<or> d = CHR ''8'' \<or> d = CHR ''9''"
  by (simp add: isDigit_def)

lemma digitChar_digitValue: "isDigit d \<Longrightarrow> digitChar (digitValue d) = d"
  unfolding digit_cases by (elim disjE) (simp_all add: digitChar_def digitValue_def)

lemma digitValue_less: "digitValue d < 10"
  by (simp add: digitValue_def)

lemma digitValue_pos: "isDigit d \<Longrightarrow> d \<noteq> CHR ''0'' \<Longrightarrow> 0 < digitValue d"
  unfolding digit_cases by (elim disjE) (simp_all add: digitValue_def)

lemma less_10_cases:
  "(v::nat) < 10 \<Longrightarrow> v = 0 \<or> v = 1 \<or> v = 2 \<or> v = 3 \<or> v = 4 \<or> v = 5 \<or> v = 6 \<or> v = 7
     \<or> v = 8 \<or> v = 9"
  by arith

lemma digitValue_digitChar: "v < 10 \<Longrightarrow> digitValue (digitChar v) = v"
  by (drule less_10_cases) (elim disjE; simp add: digitChar_def digitValue_def)

lemma isDigit_digitChar: "v < 10 \<Longrightarrow> isDigit (digitChar v)"
  by (drule less_10_cases) (elim disjE; simp add: digitChar_def isDigit_def)

lemma parseInt_snoc: "parseInt (ds @ [d]) = 10 * parseInt ds + digitValue d"
  by (simp add: parseInt_def)

lemma parseInt_single: "parseInt [d] = digitValue d"
  by (simp add: parseInt_def)

lemma numberToString_digits: "list_all isDigit (numberToString n) \<and> numberToString n \<noteq> []"
proof (induction n rule: numberToString.induct)
  case (1 n)
  show ?case
  proof (cases "n < 10")
    case True
    then show ?thesis by (subst (1 2) numberToString.simps) (simp add: isDigit_digitChar)
  next
    case False
    with 1 show ?thesis
      by (subst (1 2) numberToString.simps) (simp add: isDigit_digitChar)
  qed
qed

lemma parseInt_numberToString: "parseInt (numberToString n) = n"
proof (induction n rule: numberToString.induct)
  case (1 n)
  show ?case
  proof (cases "n < 10")
    case True
    then show ?thesis
      by (subst numberToString.simps) (simp add: parseInt_single digitValue_digitChar)
  next
    case False
    with 1 show ?thesis
      by (subst numberToString.simps) (simp add: parseInt_snoc digitValue_digitChar)
  qed
qed

lemma foldl_digits_ge: "a \<le> foldl (\<lambda>n ch. 10 * n + digitValue ch) a ds"
proof (induction ds arbitrary: a)
  case Nil
  then show ?case by simp
next
  case (Cons d ds)
  have "a \<le> 10 * a + digitValue d" by simp
  also have "\<dots> \<le> foldl (\<lambda>n ch. 10 * n + digitValue ch) (10 * a + digitValue d) ds"
    by (rule Cons.IH)
  finally show ?case by simp
qed

lemma parseInt_pos:
  assumes "ds \<noteq> []" "isDigit (hd ds)" "hd ds \<noteq> CHR ''0''"
  shows "0 < parseInt ds"
proof -
  from assms(1) obtain d ds' where ds: "ds = d # ds'" by (cases ds) auto
  with assms have "0 < digitValue d" by (simp add: digitValue_pos)
  also have "digitValue d \<le> foldl (\<lambda>n ch. 10 * n + digitValue ch) (digitValue d) ds'"
    by (rule foldl_digits_ge)
  finally show ?thesis by (simp add: parseInt_def ds)
qed

text \<open>A numeral without leading zeros is rendered back as it was read.\<close>

lemma numberToString_parseInt:
  "ds \<noteq> [] \<Longrightarrow> list_all isDigit ds \<Longrightarrow> hd ds \<noteq> CHR ''0'' \<or> ds = ''0'' \<Longrightarrow>
     numberToString (parseInt ds) = ds"
proof (induction ds rule: rev_induct)
  case Nil
  then show ?case by simp
next
  case (snoc d xs)
  from snoc.prems(2) have d: "isDigit d" and xs: "list_all isDigit xs" by simp_all
  show ?case
  proof (cases "xs = []")
    case True
    with d show ?thesis
      by (subst numberToString.simps)
         (simp add: parseInt_single digitValue_less digitChar_digitValue)
  next
    case False
    with snoc.prems(3) have hd: "hd xs \<noteq> CHR ''0''" by (cases xs) auto
    from False xs have "isDigit (hd xs)" by (cases xs) auto
    with False hd have pos: "0 < parseInt xs" by (intro parseInt_pos)
    from snoc.IH [OF False xs] hd have IH: "numberToString (parseInt xs) = xs" by simp
    have "\<not> 10 * parseInt xs + digitValue d < 10" using pos by simp
    moreover have "(10 * parseInt xs + digitValue d) div 10 = parseInt xs"
      using digitValue_less [of d] by simp
    moreover have "(10 * parseInt xs + digitValue d) mod 10 = digitValue d"
      using digitValue_less [of d] by simp
    ultimately show ?thesis using d IH
      by (subst numberToString.simps) (simp add: parseInt_snoc digitChar_digitValue)
  qed
qed

subsection \<open>The grammar and the round trip\<close>

lemma toLowerChar_digit: "isDigit d \<Longrightarrow> toLowerChar d = d"
  unfolding digit_cases by (elim disjE) (simp_all add: toLowerChar_def)

lemma toLowerCase_digits: "list_all isDigit ds \<Longrightarrow> toLowerCase ds = ds"
  by (simp add: toLowerCase_def list_all_iff toLowerChar_digit map_idI)

lemma toLowerCase_append: "toLowerCase (u @ v) = toLowerCase u @ toLowerCase v"
  by (simp add: toLowerCase_def)

lemma toLowerCase_choiceLetters:
  "list_all isChoiceLetterAnyCase ls \<Longrightarrow> list_all isChoiceLetter (toLowerCase ls)"
  by (simp add: toLowerCase_def list_all_iff isChoiceLetter_toLowerChar)

lemma toLowerCase_fixed: "list_all isChoiceLetter ls \<Longrightarrow> toLowerCase ls = ls"
  by (simp add: toLowerCase_def list_all_iff isChoiceLetter_fixed map_idI)

lemma isChoiceLetter_anyCase: "isChoiceLetter ch \<Longrightarrow> isChoiceLetterAnyCase ch"
  by (auto simp: isChoiceLetter_def isChoiceLetterAnyCase_def)

lemma digits_then_letters:
  assumes "list_all isDigit ds" and "list_all isChoiceLetterAnyCase ls"
  shows "takeWhile isDigit (ds @ ls) = ds" and "dropWhile isDigit (ds @ ls) = ls"
proof -
  from assms(2) have no: "\<forall>x \<in> set ls. \<not> isDigit x"
    by (auto simp: list_all_iff dest: digit_not_choiceLetter)
  then have "takeWhile isDigit ls = []" by (cases ls) auto
  with assms(1) show "takeWhile isDigit (ds @ ls) = ds"
    by (simp add: list_all_iff takeWhile_append2)
  from no have "dropWhile isDigit ls = ls" by (cases ls) auto
  with assms(1) show "dropWhile isDigit (ds @ ls) = ls"
    by (simp add: list_all_iff dropWhile_append2)
qed

lemma parsePageId_digits_letters:
  assumes "ds \<noteq> []" and "list_all isDigit ds" and "list_all isChoiceLetterAnyCase ls"
  shows "parsePageId (ds @ ls) = Some \<lparr>num = parseInt ds, path = toLowerCase ls\<rparr>"
  using assms by (simp add: parsePageId_eq digits_then_letters)

lemma parsePageId_grammar:
  "(parsePageId s \<noteq> None) =
     (\<exists>ds ls. s = ds @ ls \<and> ds \<noteq> [] \<and> list_all isDigit ds \<and> list_all isChoiceLetterAnyCase ls)"
proof
  assume "parsePageId s \<noteq> None"
  then have "takeWhile isDigit s \<noteq> []" "list_all isChoiceLetterAnyCase (dropWhile isDigit s)"
    by (auto simp: parsePageId_eq split: if_splits)
  moreover have "s = takeWhile isDigit s @ dropWhile isDigit s" by simp
  moreover have "list_all isDigit (takeWhile isDigit s)"
    by (simp add: list_all_iff) (meson set_takeWhileD)
  ultimately show "\<exists>ds ls. s = ds @ ls \<and> ds \<noteq> [] \<and> list_all isDigit ds
      \<and> list_all isChoiceLetterAnyCase ls" by blast
next
  assume "\<exists>ds ls. s = ds @ ls \<and> ds \<noteq> [] \<and> list_all isDigit ds \<and> list_all isChoiceLetterAnyCase ls"
  then show "parsePageId s \<noteq> None"
    by (auto simp: parsePageId_digits_letters)
qed

text \<open>
  C6, as stated, fails on leading zeros: \<^verbatim>\<open>01\<close> matches the grammar and is its own
  lower-case form, it parses to page 1 with the empty path, and that is written
  back as \<^verbatim>\<open>1\<close>.
\<close>

theorem roundtrip_leading_zero_counterexample:
  "toLowerCase ''01'' = ''01''
   \<and> parsePageId (toLowerCase ''01'') = Some \<lparr>num = 1, path = []\<rparr>
   \<and> formatSaveCode 1 [] = ''1''
   \<and> ''1'' \<noteq> ''01''"
  by code_simp

text \<open>
  C6, amended. \<open>parsePageId\<close> succeeds exactly on the strings of the grammar
  \<^verbatim>\<open>^[0-9]+[a-e]*$\<close>, letters in either case. For a string of the grammar whose digits
  have no leading zero (or are the single digit 0) and denote a number below \<open>2^53\<close>,
  the range in which the numbers of the source are exact, parsing the lower-case form
  succeeds and \<open>formatSaveCode\<close> of the result is the lower-case form again.
\<close>

theorem parsePageId_roundtrip:
  assumes "s = ds @ ls" and "ds \<noteq> []" and "list_all isDigit ds"
    and "list_all isChoiceLetterAnyCase ls"
    and "hd ds \<noteq> CHR ''0'' \<or> ds = ''0''"
    and "parseInt ds < 2 ^ 53"
  shows "(\<exists>parsed. parsePageId (toLowerCase s) = Some parsed
            \<and> formatSaveCode (num parsed) (path parsed) = toLowerCase s)
    \<and> (parsePageId t = None) =
        (\<not> (\<exists>ds' ls'. t = ds' @ ls' \<and> ds' \<noteq> [] \<and> list_all isDigit ds'
               \<and> list_all isChoiceLetterAnyCase ls'))"
proof -
  let ?ls = "toLowerCase ls"
  from assms(4) have low: "list_all isChoiceLetter ?ls" by (rule toLowerCase_choiceLetters)
  then have any: "list_all isChoiceLetterAnyCase ?ls"
    by (auto simp: list_all_iff isChoiceLetter_anyCase)
  from assms(1,3) have s: "toLowerCase s = ds @ ?ls"
    by (simp add: toLowerCase_append toLowerCase_digits)
  from parsePageId_digits_letters [OF assms(2,3) any] low
  have p: "parsePageId (toLowerCase s) = Some \<lparr>num = parseInt ds, path = ?ls\<rparr>"
    by (simp add: s toLowerCase_fixed)
  from numberToString_parseInt [OF assms(2,3,5)]
  have n: "numberToString (parseInt ds) = ds" .
  have "formatSaveCode (parseInt ds) ?ls = ds @ ?ls"
  proof (cases "parseInt ds = 1 \<and> ?ls = []")
    case True
    with n have "ds = ''1''"
      by (subst (asm) numberToString.simps) (auto simp: digitChar_def)
    with True show ?thesis by (simp add: formatSaveCode_def)
  next
    case False
    with n show ?thesis by (auto simp: formatSaveCode_def)
  qed
  with p s have "\<exists>parsed. parsePageId (toLowerCase s) = Some parsed
      \<and> formatSaveCode (num parsed) (path parsed) = toLowerCase s" by simp
  moreover from parsePageId_grammar [of t] have "(parsePageId t = None) =
        (\<not> (\<exists>ds' ls'. t = ds' @ ls' \<and> ds' \<noteq> [] \<and> list_all isDigit ds'
               \<and> list_all isChoiceLetterAnyCase ls'))" by blast
  ultimately show ?thesis by blast
qed

theorem parsePageId_roundtrip_witness:
  "parsePageId (toLowerCase ''12aE'') = Some \<lparr>num = 12, path = ''ae''\<rparr>
   \<and> formatSaveCode 12 ''ae'' = toLowerCase ''12aE''
   \<and> parsePageId ''1f'' = None"
proof -
  have h: "''12aE'' = ''12'' @ ''aE''" "''12'' \<noteq> []" "list_all isDigit ''12''"
    "list_all isChoiceLetterAnyCase ''aE''" "hd ''12'' \<noteq> CHR ''0'' \<or> ''12'' = ''0''"
    "parseInt ''12'' < 2 ^ 53"
    by (simp_all add: isDigit_def isChoiceLetterAnyCase_def parseInt_def digitValue_def)
  have a: "parsePageId (toLowerCase ''12aE'') = Some \<lparr>num = 12, path = ''ae''\<rparr>"
    by code_simp
  have b: "parsePageId ''1f'' = None" by code_simp
  from parsePageId_roundtrip [OF h, of "''1f''"] a b show ?thesis by auto
qed

section \<open>Child ids and descendants\<close>

text \<open>\<^verbatim>\<open>s.slice(0, n)\<close> for an integer \<open>n\<close>: a negative \<open>n\<close> counts from the end.\<close>

definition sliceFromStart :: "string \<Rightarrow> int \<Rightarrow> string" where
  "sliceFromStart s n =
     (if n < 0 then take (nat (int (length s) + n)) s else take (nat n) s)"

text \<open>\<open>getChildIds\<close> of \<^verbatim>\<open>shared/utils.ts\<close>. The record it returns is the list of its
  entries, letter and child id, in the order in which the letters are inserted.\<close>

definition getChildIds :: "string \<Rightarrow> int \<Rightarrow> (string \<times> string) list" where
  "getChildIds pageId choiceCount =
     (case parsePageId pageId of
        None \<Rightarrow> []
      | Some parsed \<Rightarrow>
          (let nextNum = num parsed + 1;
               basePath = path parsed;
               letters = sliceFromStart ''abcde'' choiceCount
           in map (\<lambda>letter. ([letter], numberToString nextNum @ basePath @ [letter]))
                letters))"

text \<open>The children that exist: the body of the \<^verbatim>\<open>for\<close> loop in \<open>getDescendants\<close>
  pushes each child id with a page to \<^verbatim>\<open>descendants\<close> and to the queue.
  \<^verbatim>\<open>Object.values(children)\<close> are the child ids in insertion order.\<close>

definition existingChildren :: "(string \<times> 'v) list \<Rightarrow> int \<Rightarrow> string \<Rightarrow> string list" where
  "existingChildren pages maxChoices current =
     filter (\<lambda>childId. map_of pages childId \<noteq> None)
       (map snd (getChildIds current maxChoices))"

subsection \<open>Why the traversal ends\<close>

definition pathLength :: "string \<Rightarrow> nat" where
  "pathLength pageId =
     (case parsePageId pageId of None \<Rightarrow> 0 | Some parsed \<Rightarrow> length (path parsed))"

definition maxPathLength :: "(string \<times> 'v) list \<Rightarrow> nat" where
  "maxPathLength pages = foldr (\<lambda>entry m. max (pathLength (fst entry)) m) pages 0"

definition weight :: "(string \<times> 'v) list \<Rightarrow> string \<Rightarrow> nat" where
  "weight pages pageId = 6 ^ (Suc (maxPathLength pages) - pathLength pageId)"

lemma pathLength_le_max:
  "map_of pages k \<noteq> None \<Longrightarrow> pathLength k \<le> maxPathLength pages"
proof (induction pages)
  case Nil
  then show ?case by simp
next
  case (Cons entry pages)
  then show ?case
    by (cases entry) (auto simp: maxPathLength_def split: if_splits)
qed

lemma parsePageId_path:
  assumes "parsePageId s = Some parsed"
  shows "list_all isChoiceLetter (path parsed)"
  using assms by (auto simp: parsePageId_eq toLowerCase_choiceLetters split: if_splits)

lemma sliceFromStart_letters:
  "set (sliceFromStart ''abcde'' n) \<subseteq> set ''abcde''" "length (sliceFromStart ''abcde'' n) \<le> 5"
  using set_take_subset [of _ "''abcde''"] by (auto simp: sliceFromStart_def)

text \<open>A child id parses to the next number and the path extended by the letter.\<close>

lemma parsePageId_child:
  assumes "parsePageId s = Some parsed" and "isChoiceLetter l"
  shows "parsePageId (numberToString (num parsed + 1) @ path parsed @ [l])
           = Some \<lparr>num = num parsed + 1, path = path parsed @ [l]\<rparr>"
proof -
  from parsePageId_path [OF assms(1)] assms(2)
  have low: "list_all isChoiceLetter (path parsed @ [l])" by simp
  then have "list_all isChoiceLetterAnyCase (path parsed @ [l])"
    by (auto simp: list_all_iff isChoiceLetter_anyCase)
  from parsePageId_digits_letters [OF _ _ this, of "numberToString (num parsed + 1)"]
    numberToString_digits [of "num parsed + 1"] toLowerCase_fixed [OF low]
  show ?thesis by (simp add: parseInt_numberToString)
qed

lemma getChildIds_pathLength:
  assumes "c \<in> set (map snd (getChildIds current mc))"
  shows "pathLength c = Suc (pathLength current)"
proof (cases "parsePageId current")
  case None
  with assms show ?thesis by (simp add: getChildIds_def)
next
  case (Some parsed)
  with assms obtain l where l: "l \<in> set (sliceFromStart ''abcde'' mc)"
    and c: "c = numberToString (num parsed + 1) @ path parsed @ [l]"
    by (auto simp: getChildIds_def Let_def)
  from l sliceFromStart_letters(1) have "isChoiceLetter l"
    unfolding isChoiceLetter_def by blast
  from parsePageId_child [OF Some this] c Some show ?thesis
    by (simp add: pathLength_def)
qed

lemma getChildIds_length: "length (getChildIds current mc) \<le> 5"
  using sliceFromStart_letters(2) [of mc]
  by (simp add: getChildIds_def Let_def split: option.splits)

lemma sum_list_bound:
  "(\<And>x. x \<in> set xs \<Longrightarrow> f x \<le> (k::nat)) \<Longrightarrow> sum_list (map f xs) \<le> length xs * k"
  by (induction xs) (auto simp: add_mono)

lemma existingChildren_weight:
  "sum_list (map (weight pages) (existingChildren pages mc current)) < weight pages current"
proof (cases "existingChildren pages mc current = []")
  case True
  then show ?thesis by (simp add: weight_def)
next
  case False
  let ?M = "maxPathLength pages" and ?found = "existingChildren pages mc current"
  from False obtain c where c: "c \<in> set ?found" by (cases ?found) auto
  then have "map_of pages c \<noteq> None" "c \<in> set (map snd (getChildIds current mc))"
    by (auto simp: existingChildren_def)
  then have "Suc (pathLength current) \<le> ?M"
    using pathLength_le_max [of pages c] getChildIds_pathLength [of c current mc] by simp
  then have w: "weight pages current = 6 * 6 ^ (?M - pathLength current)"
    by (simp add: weight_def Suc_diff_le)
  have each: "\<And>x. x \<in> set ?found \<Longrightarrow> weight pages x \<le> 6 ^ (?M - pathLength current)"
  proof -
    fix x assume "x \<in> set ?found"
    then have "x \<in> set (map snd (getChildIds current mc))" by (auto simp: existingChildren_def)
    from getChildIds_pathLength [OF this] show "weight pages x \<le> 6 ^ (?M - pathLength current)"
      by (simp add: weight_def)
  qed
  have "length ?found \<le> 5"
    using getChildIds_length [of current mc] length_filter_le
    unfolding existingChildren_def
    by (metis (no_types, lifting) le_trans length_map)
  moreover have "sum_list (map (weight pages) ?found)
      \<le> length ?found * 6 ^ (?M - pathLength current)"
    by (rule sum_list_bound) (rule each)
  ultimately have "sum_list (map (weight pages) ?found) \<le> 5 * 6 ^ (?M - pathLength current)"
    by (meson le_trans mult_le_mono1)
  moreover have "0 < (6::nat) ^ (?M - pathLength current)" by simp
  ultimately show ?thesis using w by linarith
qed

text \<open>
  \<open>getDescendants\<close> of \<^verbatim>\<open>shared/utils.ts\<close>: the loop \<^verbatim>\<open>while (queue.length > 0)\<close> with
  its queue and the list \<^verbatim>\<open>descendants\<close>. There is no set of visited ids; the loop
  ends because a child has a longer path than its parent and only ids of the
  collection enter the queue.
\<close>

function getDescendantsLoop ::
  "(string \<times> 'v) list \<Rightarrow> int \<Rightarrow> string list \<Rightarrow> string list \<Rightarrow> string list" where
  "getDescendantsLoop pages maxChoices [] descendants = descendants"
| "getDescendantsLoop pages maxChoices (current # queue) descendants =
     getDescendantsLoop pages maxChoices
       (queue @ existingChildren pages maxChoices current)
       (descendants @ existingChildren pages maxChoices current)"
  by pat_completeness auto
termination
proof (relation "measure (\<lambda>(pages, maxChoices, queue, descendants).
         sum_list (map (weight pages) queue))", goal_cases)
  case 1
  then show ?case by simp
next
  case (2 pages maxChoices current queue descendants)
  from existingChildren_weight [of pages maxChoices current] show ?case by simp
qed

definition getDescendants :: "string \<Rightarrow> (string \<times> 'v) list \<Rightarrow> int \<Rightarrow> string list" where
  "getDescendants pageId pages maxChoices = getDescendantsLoop pages maxChoices [pageId] []"

subsection \<open>The order of the traversal\<close>

text \<open>The existing children of all ids of a list, and the ids \<open>k\<close> generations below a
  list of ids.\<close>

definition nextLevel :: "(string \<times> 'v) list \<Rightarrow> int \<Rightarrow> string list \<Rightarrow> string list" where
  "nextLevel pages maxChoices queue = concat (map (existingChildren pages maxChoices) queue)"

fun descendantLevel :: "(string \<times> 'v) list \<Rightarrow> int \<Rightarrow> nat \<Rightarrow> string list \<Rightarrow> string list" where
  "descendantLevel pages maxChoices 0 queue = queue"
| "descendantLevel pages maxChoices (Suc k) queue =
     nextLevel pages maxChoices (descendantLevel pages maxChoices k queue)"

lemma getDescendantsLoop_acc:
  "getDescendantsLoop pages mc queue acc = acc @ getDescendantsLoop pages mc queue []"
proof (induction "sum_list (map (weight pages) queue)" arbitrary: queue acc rule: less_induct)
  case less
  show ?case
  proof (cases queue)
    case Nil
    then show ?thesis by simp
  next
    case (Cons current q)
    let ?found = "existingChildren pages mc current"
    from existingChildren_weight [of pages mc current] Cons
    have lt: "sum_list (map (weight pages) (q @ ?found)) < sum_list (map (weight pages) queue)"
      by simp
    have "getDescendantsLoop pages mc queue acc
        = getDescendantsLoop pages mc (q @ ?found) (acc @ ?found)"
      by (simp add: Cons)
    also have "\<dots> = (acc @ ?found) @ getDescendantsLoop pages mc (q @ ?found) []"
      by (rule less.hyps [OF lt])
    also have "\<dots> = acc @ getDescendantsLoop pages mc (q @ ?found) ([] @ ?found)"
      using less.hyps [OF lt, of "[] @ ?found"] by simp
    also have "\<dots> = acc @ getDescendantsLoop pages mc queue []"
      by (simp add: Cons)
    finally show ?thesis .
  qed
qed

lemma getDescendantsLoop_level:
  "getDescendantsLoop pages mc (q @ r) [] =
     nextLevel pages mc q @ getDescendantsLoop pages mc (r @ nextLevel pages mc q) []"
proof (induction q arbitrary: r)
  case Nil
  then show ?case by (simp add: nextLevel_def)
next
  case (Cons x q)
  let ?kids = "existingChildren pages mc x"
  have "getDescendantsLoop pages mc ((x # q) @ r) []
      = ?kids @ getDescendantsLoop pages mc (q @ (r @ ?kids)) []"
    using getDescendantsLoop_acc [of pages mc "q @ r @ ?kids" ?kids] by simp
  also have "\<dots> = ?kids @ nextLevel pages mc q
      @ getDescendantsLoop pages mc ((r @ ?kids) @ nextLevel pages mc q) []"
    by (simp only: Cons.IH)
  finally show ?case by (simp add: nextLevel_def)
qed

lemma getDescendantsLoop_levels:
  "getDescendantsLoop pages mc q [] =
     concat (map (\<lambda>k. descendantLevel pages mc (Suc k) q) [0..<d])
     @ getDescendantsLoop pages mc (descendantLevel pages mc d q) []"
proof (induction d)
  case 0
  then show ?case by simp
next
  case (Suc d)
  from getDescendantsLoop_level [of pages mc "descendantLevel pages mc d q" "[]"]
  have "getDescendantsLoop pages mc (descendantLevel pages mc d q) []
      = descendantLevel pages mc (Suc d) q
        @ getDescendantsLoop pages mc (descendantLevel pages mc (Suc d) q) []"
    by simp
  with Suc show ?case by simp
qed

lemma descendantLevel_member:
  "x \<in> set (descendantLevel pages mc (Suc k) q) \<Longrightarrow>
     map_of pages x \<noteq> None \<and> Suc k \<le> pathLength x"
proof (induction k arbitrary: x)
  case 0
  then obtain y where "y \<in> set q" "x \<in> set (existingChildren pages mc y)"
    by (auto simp: nextLevel_def)
  then have "map_of pages x \<noteq> None" "x \<in> set (map snd (getChildIds y mc))"
    by (auto simp: existingChildren_def)
  with getChildIds_pathLength [of x y mc] show ?case by simp
next
  case (Suc k)
  from Suc.prems obtain y where y: "y \<in> set (descendantLevel pages mc (Suc k) q)"
    and "x \<in> set (existingChildren pages mc y)"
    by (auto simp: nextLevel_def)
  then have "map_of pages x \<noteq> None" "x \<in> set (map snd (getChildIds y mc))"
    by (auto simp: existingChildren_def)
  with getChildIds_pathLength [of x y mc] Suc.IH [OF y] show ?case by simp
qed

lemma descendantLevel_empty: "descendantLevel pages mc (Suc (maxPathLength pages)) q = []"
proof (rule ccontr)
  assume "descendantLevel pages mc (Suc (maxPathLength pages)) q \<noteq> []"
  then obtain x where "x \<in> set (descendantLevel pages mc (Suc (maxPathLength pages)) q)"
    by (cases "descendantLevel pages mc (Suc (maxPathLength pages)) q") auto
  from descendantLevel_member [OF this] pathLength_le_max [of pages x]
  show False by simp
qed

text \<open>
  C9. \<open>getDescendantsLoop\<close> is defined by well-founded recursion: its termination
  proof above shows that the loop of \<open>getDescendants\<close> ends for every page collection
  (a finite list of entries) and every starting id. The result holds only ids of the
  collection, and it lists them breadth-first: the existing children of the start,
  then their existing children, and so on, generation by generation.
\<close>

theorem getDescendants_breadth_first:
  "set (getDescendants pageId pages maxChoices) \<subseteq> fst ` set pages
   \<and> getDescendants pageId pages maxChoices =
       concat (map (\<lambda>k. descendantLevel pages maxChoices (Suc k) [pageId])
                 [0..<Suc (maxPathLength pages)])
   \<and> descendantLevel pages maxChoices (Suc k) [pageId] =
       concat (map (existingChildren pages maxChoices)
                 (descendantLevel pages maxChoices k [pageId]))
   \<and> descendantLevel pages maxChoices 0 [pageId] = [pageId]
   \<and> existingChildren pages maxChoices current =
       filter (\<lambda>childId. map_of pages childId \<noteq> None)
         (map snd (getChildIds current maxChoices))"
proof -
  have levels: "getDescendants pageId pages maxChoices =
       concat (map (\<lambda>k. descendantLevel pages maxChoices (Suc k) [pageId])
                 [0..<Suc (maxPathLength pages)])"
    using getDescendantsLoop_levels [of pages maxChoices "[pageId]" "Suc (maxPathLength pages)"]
    by (simp only: getDescendants_def descendantLevel_empty getDescendantsLoop.simps(1)
        append_Nil2)
  have "set (getDescendants pageId pages maxChoices) \<subseteq> fst ` set pages"
  proof
    fix x assume "x \<in> set (getDescendants pageId pages maxChoices)"
    then obtain j where "x \<in> set (descendantLevel pages maxChoices (Suc j) [pageId])"
      unfolding levels by auto
    from descendantLevel_member [OF this] have "map_of pages x \<noteq> None" by simp
    then show "x \<in> fst ` set pages" by (auto simp: map_of_eq_None_iff)
  qed
  with levels show ?thesis
    by (simp add: nextLevel_def existingChildren_def)
qed

lemma getDescendants_example:
  "getDescendants ''1'' [(''1'', ()), (''9'', ()), (''2a'', ()), (''2b'', ()), (''3aa'', ()),
      (''3ab'', ()), (''3ba'', ())] 5 = [''2a'', ''2b'', ''3aa'', ''3ab'', ''3ba'']"
  by code_simp

section \<open>Variables\<close>

text \<open>
  A variable holds a string, a number or a boolean. The numbers of the sources are
  double-precision floats; the embedding leaves the number type \<open>'n\<close> open and uses
  only its \<open>0\<close>, \<open>1\<close>, \<open>+\<close>, \<open>-\<close> and comparisons, with no law assumed of them.
  \<^verbatim>\<open>Number(s)\<close> is a parameter \<open>Number\<close> of the functions that call it: \<open>None\<close>
  stands for \<^verbatim>\<open>NaN\<close>. A variable state is a plain object; the map
  \<open>'n VariableState\<close> holds its own entries.
\<close>

datatype 'n VariableValue = VString string | VNumber 'n | VBoolean bool

type_synonym 'n VariableState = "string \<rightharpoonup> 'n VariableValue"

text \<open>
  The sources read a variable with \<^verbatim>\<open>variables[name]\<close> and write it with
  \<^verbatim>\<open>newVariables[name] = value\<close>. Both go through the prototype of the object. A plain
  object inherits the members of \<^verbatim>\<open>Object.prototype\<close> listed below, so the lookup of such
  a name that is not an own entry gives a function (for \<^verbatim>\<open>__proto__\<close> the prototype
  object), not \<^verbatim>\<open>undefined\<close>. A write makes an own entry, except for \<^verbatim>\<open>__proto__\<close>: when
  there is no own entry of this name the write calls the inherited setter, which ignores
  a string, a number or a boolean, and nothing is stored. \<^verbatim>\<open>{ ...variables }\<close> copies
  the own entries.
\<close>

definition objectPrototypeNames :: "string list" where
  "objectPrototypeNames =
     [''constructor'', ''__defineGetter__'', ''__defineSetter__'', ''hasOwnProperty'',
      ''__lookupGetter__'', ''__lookupSetter__'', ''isPrototypeOf'',
      ''propertyIsEnumerable'', ''toString'', ''valueOf'', ''__proto__'',
      ''toLocaleString'']"

datatype 'n Property = Undefined | Own "'n VariableValue" | Inherited

definition getProperty :: "'n VariableState \<Rightarrow> string \<Rightarrow> 'n Property" where
  "getProperty variables name =
     (case variables name of
        Some v \<Rightarrow> Own v
      | None \<Rightarrow> if name \<in> set objectPrototypeNames then Inherited else Undefined)"

definition setProperty ::
  "'n VariableState \<Rightarrow> string \<Rightarrow> 'n VariableValue \<Rightarrow> 'n VariableState" where
  "setProperty variables name v =
     (case variables name of
        None \<Rightarrow> if name = ''__proto__'' then variables else variables(name \<mapsto> v)
      | Some _ \<Rightarrow> variables(name \<mapsto> v))"

text \<open>\<open>evaluateCondition\<close> of \<^verbatim>\<open>shared/utils.ts\<close>. An inherited member is not
  \<^verbatim>\<open>undefined\<close>, it is not a number and it is not identical to any compare value.\<close>

definition evaluateCondition ::
  "('n::ord) VariableState \<Rightarrow> string \<Rightarrow> string \<Rightarrow> 'n VariableValue \<Rightarrow> bool" where
  "evaluateCondition variables name operator compareValue =
     (case getProperty variables name of
        Undefined \<Rightarrow> operator = ''!='' \<or> (operator = ''=='' \<and> compareValue = VBoolean False)
      | Inherited \<Rightarrow>
          if operator = ''=='' then False
          else if operator = ''!='' then True
          else False
      | Own val \<Rightarrow>
          if operator = ''=='' then val = compareValue
          else if operator = ''!='' then val \<noteq> compareValue
          else if operator = ''>'' then
            (case (val, compareValue) of (VNumber x, VNumber y) \<Rightarrow> x > y | _ \<Rightarrow> False)
          else if operator = ''<'' then
            (case (val, compareValue) of (VNumber x, VNumber y) \<Rightarrow> x < y | _ \<Rightarrow> False)
          else if operator = ''>='' then
            (case (val, compareValue) of (VNumber x, VNumber y) \<Rightarrow> x \<ge> y | _ \<Rightarrow> False)
          else if operator = ''<='' then
            (case (val, compareValue) of (VNumber x, VNumber y) \<Rightarrow> x \<le> y | _ \<Rightarrow> False)
          else False)"

text \<open>When the lookup gives \<^verbatim>\<open>undefined\<close>, that is for a name that is neither an own
  entry of the state nor inherited, \<open>evaluateCondition\<close> is true exactly for the operator
  \<^verbatim>\<open>!=\<close> and for the operator \<^verbatim>\<open>==\<close> with compare value \<open>false\<close>. For an inherited name
  that is not an own entry it is true exactly for the operator \<^verbatim>\<open>!=\<close>.\<close>

lemma evaluateCondition_undefined:
  assumes "vars name = None" and "name \<notin> set objectPrototypeNames"
  shows "evaluateCondition vars name operator compareValue =
       (operator = ''!='' \<or> (operator = ''=='' \<and> compareValue = VBoolean False))"
  using assms by (simp add: evaluateCondition_def getProperty_def)

lemma evaluateCondition_inherited:
  assumes "vars name = None" and "name \<in> set objectPrototypeNames"
  shows "evaluateCondition vars name operator compareValue = (operator = ''!='')"
  using assms by (simp add: evaluateCondition_def getProperty_def)

lemma evaluateCondition_undefined_example:
  "evaluateCondition (Map.empty :: int VariableState) ''coins'' ''>'' (VNumber 0) = False
   \<and> evaluateCondition (Map.empty :: int VariableState) ''coins'' ''<='' (VNumber 0) = False
   \<and> evaluateCondition (Map.empty :: int VariableState) ''hasKey'' ''=='' (VBoolean False) = True
   \<and> evaluateCondition (Map.empty :: int VariableState) ''hasKey'' ''=='' (VBoolean True) = False
   \<and> evaluateCondition (Map.empty :: int VariableState) ''hasKey'' ''!='' (VString ''x'') = True"
  by (simp add: evaluateCondition_def getProperty_def objectPrototypeNames_def)

text \<open>
  C5. The branch of \<open>evaluateCondition\<close> for a variable that does not exist is taken when
  \<^verbatim>\<open>variables[name]\<close> is \<^verbatim>\<open>undefined\<close>. The name \<^verbatim>\<open>constructor\<close> is absent from the empty
  state, but the lookup gives the inherited member, and the comparison \<^verbatim>\<open>==\<close> with
  \<open>false\<close> is false, where it is true for an absent name such as \<^verbatim>\<open>missing\<close>.
\<close>

theorem inherited_name_not_absent:
  "(Map.empty :: int VariableState) ''constructor'' = None
   \<and> evaluateCondition (Map.empty :: int VariableState) ''constructor'' ''==''
        (VBoolean False) = False
   \<and> evaluateCondition (Map.empty :: int VariableState) ''missing'' ''==''
        (VBoolean False) = True"
  by (simp add: evaluateCondition_def getProperty_def objectPrototypeNames_def)

subsection \<open>Directives and their operations\<close>

text \<open>\<open>parseVariableValue\<close> of \<^verbatim>\<open>shared/utils.ts\<close>.\<close>

definition parseVariableValue :: "(string \<Rightarrow> 'n option) \<Rightarrow> string \<Rightarrow> 'n VariableValue" where
  "parseVariableValue Number val =
     (let trimmed = trim val
      in if trimmed = ''true'' then VBoolean True
         else if trimmed = ''false'' then VBoolean False
         else (case Number trimmed of
                 Some n \<Rightarrow> VNumber n
               | None \<Rightarrow> VString trimmed))"

text \<open>The patterns of \<open>parseVariables\<close>:
  \<^verbatim>\<open>/\{set:(\w+)=([^}]+)\}/gi\<close>,
  \<^verbatim>\<open>/\{add:(\w+)(?:=([^}]+))?\}/gi\<close>,
  \<^verbatim>\<open>/\{sub:(\w+)(?:=([^}]+))?\}/gi\<close>,
  \<^verbatim>\<open>/\{if:(\w+)(?:(==|!=|>=|<=|>|<)([^}]+))?\}/gi\<close> and
  \<^verbatim>\<open>/\{\/if\}/gi\<close>.\<close>

definition isBrace :: "char \<Rightarrow> bool" where
  "isBrace ch = (ch = CHR ''}'')"

definition setRegex :: regex where
  "setRegex =
     seqs [Lit ''{set:'', Group 1 (oneOrMore (Chars isWordChar)), Lit ''='',
           Group 2 (oneOrMore (NotChars isBrace)), Lit ''}'']"

definition addRegex :: regex where
  "addRegex =
     seqs [Lit ''{add:'', Group 1 (oneOrMore (Chars isWordChar)),
           opt (Seq (Lit ''='') (Group 2 (oneOrMore (NotChars isBrace)))), Lit ''}'']"

definition subRegex :: regex where
  "subRegex =
     seqs [Lit ''{sub:'', Group 1 (oneOrMore (Chars isWordChar)),
           opt (Seq (Lit ''='') (Group 2 (oneOrMore (NotChars isBrace)))), Lit ''}'']"

definition comparisonOperator :: regex where
  "comparisonOperator =
     Alt (Lit ''=='') (Alt (Lit ''!='') (Alt (Lit ''>='') (Alt (Lit ''<='')
       (Alt (Lit ''>'') (Lit ''<'')))))"

definition ifRegex :: regex where
  "ifRegex =
     seqs [Lit ''{if:'', Group 1 (oneOrMore (Chars isWordChar)),
           opt (Seq (Group 2 comparisonOperator) (Group 3 (oneOrMore (NotChars isBrace)))),
           Lit ''}'']"

definition endifRegex :: regex where
  "endifRegex = Lit ''{/if}''"

datatype OperationType = OpSet | OpAdd | OpSub | OpIf | OpEndif

record 'n VariableOperation =
  opType :: OperationType
  opName :: string
  opValue :: "'n VariableValue option"
  opOperator :: "string option"
  opFullMatch :: string

text \<open>\<^verbatim>\<open>match[n]\<close> of a group that takes part in every match of its pattern.\<close>

definition group :: "rmatch \<Rightarrow> nat \<Rightarrow> string" where
  "group m n = (case groups m n of Some s \<Rightarrow> s | None \<Rightarrow> [])"

text \<open>\<^verbatim>\<open>match[n] ? parseVariableValue(match[n]) : dflt\<close>: an absent group and the empty
  string are both falsy.\<close>

definition groupValueOr ::
  "(string \<Rightarrow> 'n option) \<Rightarrow> rmatch \<Rightarrow> nat \<Rightarrow> 'n VariableValue \<Rightarrow> 'n VariableValue" where
  "groupValueOr Number m n dflt =
     (case groups m n of
        Some s \<Rightarrow> if s \<noteq> [] then parseVariableValue Number s else dflt
      | None \<Rightarrow> dflt)"

definition setOperation :: "(string \<Rightarrow> 'n option) \<Rightarrow> rmatch \<Rightarrow> 'n VariableOperation" where
  "setOperation Number m =
     \<lparr>opType = OpSet, opName = group m 1,
      opValue = Some (parseVariableValue Number (group m 2)),
      opOperator = None, opFullMatch = fullMatch m\<rparr>"

definition addOperation :: "(string \<Rightarrow> ('n::one) option) \<Rightarrow> rmatch \<Rightarrow> 'n VariableOperation" where
  "addOperation Number m =
     \<lparr>opType = OpAdd, opName = group m 1,
      opValue = Some (groupValueOr Number m 2 (VNumber 1)),
      opOperator = None, opFullMatch = fullMatch m\<rparr>"

definition subOperation :: "(string \<Rightarrow> ('n::one) option) \<Rightarrow> rmatch \<Rightarrow> 'n VariableOperation" where
  "subOperation Number m =
     \<lparr>opType = OpSub, opName = group m 1,
      opValue = Some (groupValueOr Number m 2 (VNumber 1)),
      opOperator = None, opFullMatch = fullMatch m\<rparr>"

definition ifOperation :: "(string \<Rightarrow> 'n option) \<Rightarrow> rmatch \<Rightarrow> 'n VariableOperation" where
  "ifOperation Number m =
     \<lparr>opType = OpIf, opName = group m 1,
      opValue = Some (groupValueOr Number m 3 (VBoolean True)),
      opOperator = Some (case groups m 2 of
                           Some s \<Rightarrow> if s \<noteq> [] then s else ''==''
                         | None \<Rightarrow> ''==''),
      opFullMatch = fullMatch m\<rparr>"

definition endifOperation :: "rmatch \<Rightarrow> 'n VariableOperation" where
  "endifOperation m =
     \<lparr>opType = OpEndif, opName = [], opValue = None, opOperator = None,
      opFullMatch = fullMatch m\<rparr>"

text \<open>\<open>parseVariables\<close> of \<^verbatim>\<open>shared/utils.ts\<close>: five loops, one per pattern, each
  appending its matches to the same list.\<close>

definition parseVariables ::
  "(string \<Rightarrow> ('n::one) option) \<Rightarrow> string \<Rightarrow> 'n VariableOperation list option" where
  "parseVariables Number text =
     Option.bind (execAll flags_gi setRegex None text) (\<lambda>sets.
     Option.bind (execAll flags_gi addRegex None text) (\<lambda>adds.
     Option.bind (execAll flags_gi subRegex None text) (\<lambda>subs.
     Option.bind (execAll flags_gi ifRegex None text) (\<lambda>ifs.
     Option.bind (execAll flags_gi endifRegex None text) (\<lambda>endifs.
       Some (map (setOperation Number) sets @ map (addOperation Number) adds
             @ map (subOperation Number) subs @ map (ifOperation Number) ifs
             @ map endifOperation endifs))))))"

text \<open>\<^verbatim>\<open>typeof newVariables[op.name] === 'number' ? newVariables[op.name] : 0\<close>: an
  inherited member is not a number.\<close>

definition currentNumber :: "('n::zero) VariableState \<Rightarrow> string \<Rightarrow> 'n" where
  "currentNumber variables name =
     (case getProperty variables name of Own (VNumber n) \<Rightarrow> n | _ \<Rightarrow> 0)"

text \<open>The body of the loop over the operations in \<open>processVariables\<close> of the engine's
  variables module; the state of the loop is the text \<^verbatim>\<open>result\<close> and \<^verbatim>\<open>newVariables\<close>.\<close>

definition engine_applyOperation ::
  "('n::{zero,plus,minus}) VariableOperation \<Rightarrow> string \<times> 'n VariableState
     \<Rightarrow> string \<times> 'n VariableState" where
  "engine_applyOperation op st = (case st of (result, newVariables) \<Rightarrow>
     (case opType op of
        OpSet \<Rightarrow>
          (replaceFirst (opFullMatch op) [] result,
           (case opValue op of
              Some v \<Rightarrow> setProperty newVariables (opName op) v
            | None \<Rightarrow> newVariables))
      | OpAdd \<Rightarrow>
          (replaceFirst (opFullMatch op) [] result,
           (case opValue op of
              Some (VNumber d) \<Rightarrow>
                setProperty newVariables (opName op)
                  (VNumber (currentNumber newVariables (opName op) + d))
            | _ \<Rightarrow> newVariables))
      | OpSub \<Rightarrow>
          (replaceFirst (opFullMatch op) [] result,
           (case opValue op of
              Some (VNumber d) \<Rightarrow>
                setProperty newVariables (opName op)
                  (VNumber (currentNumber newVariables (opName op) - d))
            | _ \<Rightarrow> newVariables))
      | _ \<Rightarrow> (result, newVariables)))"

text \<open>The same loop body in \<open>processVariables\<close> of \<^verbatim>\<open>shared/format.ts\<close>: here the
  directive is removed from the text only when the operation is carried out.\<close>

definition format_applyOperation ::
  "('n::{zero,plus,minus}) VariableOperation \<Rightarrow> string \<times> 'n VariableState
     \<Rightarrow> string \<times> 'n VariableState" where
  "format_applyOperation op st = (case st of (result, newVariables) \<Rightarrow>
     (case (opType op, opValue op) of
        (OpSet, Some v) \<Rightarrow>
          (replaceFirst (opFullMatch op) [] result, setProperty newVariables (opName op) v)
      | (OpAdd, Some (VNumber d)) \<Rightarrow>
          (replaceFirst (opFullMatch op) [] result,
           setProperty newVariables (opName op)
             (VNumber (currentNumber newVariables (opName op) + d)))
      | (OpSub, Some (VNumber d)) \<Rightarrow>
          (replaceFirst (opFullMatch op) [] result,
           setProperty newVariables (opName op)
             (VNumber (currentNumber newVariables (opName op) - d)))
      | _ \<Rightarrow> (result, newVariables)))"

subsection \<open>Conditional blocks\<close>

text \<open>\<open>parseValue\<close>, defined alike in \<^verbatim>\<open>shared/format.ts\<close> and in the engine's
  variables module.\<close>

definition parseValue :: "(string \<Rightarrow> 'n option) \<Rightarrow> string \<Rightarrow> 'n VariableValue" where
  "parseValue Number val =
     (if val = ''true'' then VBoolean True
      else if val = ''false'' then VBoolean False
      else (case Number val of
              Some n \<Rightarrow> VNumber n
            | None \<Rightarrow> VString val))"

text \<open>The replacer of the conditional blocks. \<^verbatim>\<open>shared/format.ts\<close> tests
  \<^verbatim>\<open>value ? ... : true\<close>, the engine \<^verbatim>\<open>value !== undefined ? ... : true\<close>.\<close>

definition format_conditionalReplacer ::
  "(string \<Rightarrow> ('n::ord) option) \<Rightarrow> 'n VariableState \<Rightarrow> rmatch \<Rightarrow> string" where
  "format_conditionalReplacer Number variables m =
     (let compareValue = (case groups m 3 of
                            Some v \<Rightarrow> if v \<noteq> [] then parseValue Number (trim v)
                                      else VBoolean True
                          | None \<Rightarrow> VBoolean True);
          op = (case groups m 2 of
                  Some s \<Rightarrow> if s \<noteq> [] then s else ''==''
                | None \<Rightarrow> ''=='')
      in if evaluateCondition variables (group m 1) op compareValue then group m 4 else [])"

definition engine_conditionalReplacer ::
  "(string \<Rightarrow> ('n::ord) option) \<Rightarrow> 'n VariableState \<Rightarrow> rmatch \<Rightarrow> string" where
  "engine_conditionalReplacer Number variables m =
     (let compareValue = (case groups m 3 of
                            Some v \<Rightarrow> parseValue Number (trim v)
                          | None \<Rightarrow> VBoolean True);
          op = (case groups m 2 of
                  Some s \<Rightarrow> if s \<noteq> [] then s else ''==''
                | None \<Rightarrow> ''=='')
      in if evaluateCondition variables (group m 1) op compareValue then group m 4 else [])"

text \<open>\<^verbatim>\<open>/\{if:(\w+)(?:(==|!=|>=|<=|>|<)([^}]+))?\}([\s\S]*?)\{\/if\}/gi\<close> in
  \<^verbatim>\<open>shared/format.ts\<close>.\<close>

definition anyChar :: "char \<Rightarrow> bool" where
  "anyChar ch = True"

definition format_conditionalRegex :: regex where
  "format_conditionalRegex =
     seqs [Lit ''{if:'', Group 1 (oneOrMore (Chars isWordChar)),
           opt (Seq (Group 2 comparisonOperator) (Group 3 (oneOrMore (NotChars isBrace)))),
           Lit ''}'', Group 4 (lazyStar (Chars anyChar)), Lit ''{/if}'']"

text \<open>\<^verbatim>\<open>/\{if:(\w+)(?:(==|!=|>=|<=|>|<)([^}]+))?\}((?:(?!\{if:)[\s\S])*?)\{\/if\}/gi\<close> in the
  engine.\<close>

definition engine_conditionalRegex :: regex where
  "engine_conditionalRegex =
     seqs [Lit ''{if:'', Group 1 (oneOrMore (Chars isWordChar)),
           opt (Seq (Group 2 comparisonOperator) (Group 3 (oneOrMore (NotChars isBrace)))),
           Lit ''}'',
           Group 4 (lazyStar (Seq (NotAhead (Lit ''{if:'')) (Chars anyChar))),
           Lit ''{/if}'']"

text \<open>\<open>processConditionals\<close> of \<^verbatim>\<open>shared/format.ts\<close>: one replacement pass.\<close>

definition format_processConditionals ::
  "(string \<Rightarrow> ('n::ord) option) \<Rightarrow> string \<Rightarrow> 'n VariableState \<Rightarrow> string" where
  "format_processConditionals Number text variables =
     replaceAll flags_gi format_conditionalRegex (format_conditionalReplacer Number variables)
       None text"

text \<open>Both patterns for conditional blocks are a sequence of four parts, the group of
  the content and the closing literal. The content is shorter than the whole match.\<close>

lemma conditional_content_shorter:
  assumes "search f (Seq r1 (Seq r2 (Seq r3 (Seq r4 (Seq (Group n x) (Lit w)))))) p a = Some m"
    and "w \<noteq> []"
  shows "\<exists>v. groups m n = Some v \<and> length v < length (fullMatch m)"
proof -
  from search_Some_run [OF assms(1)] obtain p0 a0 st sts where
    r: "run f (Seq r1 (Seq r2 (Seq r3 (Seq r4 (Seq (Group n x) (Lit w))))))
          (Map.empty, p0, a0) = st # sts"
    and m: "m = mkMatch a0 st" by blast
  obtain c' p' a' where st: "st = (c', p', a')" by (cases st)
  from r st have "(c', p', a') \<in> set (run f (Seq r1 (Seq r2 (Seq r3 (Seq r4
     (Seq (Group n x) (Lit w)))))) (Map.empty, p0, a0))" by simp
  then obtain c1 p1 a1 where
    t1: "(c', p', a') \<in> set (run f (Seq r2 (Seq r3 (Seq r4 (Seq (Group n x) (Lit w))))) (c1, p1, a1))"
    and l1: "length a1 \<le> length a0" by (rule run_Seq_elim)
  from t1 obtain c2 p2 a2 where
    t2: "(c', p', a') \<in> set (run f (Seq r3 (Seq r4 (Seq (Group n x) (Lit w)))) (c2, p2, a2))"
    and l2: "length a2 \<le> length a1" by (rule run_Seq_elim)
  from t2 obtain c3 p3 a3 where
    t3: "(c', p', a') \<in> set (run f (Seq r4 (Seq (Group n x) (Lit w))) (c3, p3, a3))"
    and l3: "length a3 \<le> length a2" by (rule run_Seq_elim)
  from t3 obtain c4 p4 a4 where
    t: "(c', p', a') \<in> set (run f (Seq (Group n x) (Lit w)) (c4, p4, a4))"
    and l4: "length a4 \<le> length a3" by (rule run_Seq_elim)
  from l1 l2 l3 l4 have le: "length a4 \<le> length a0" by simp
  from run_Group_Lit [OF t] obtain v where
    v: "c' n = Some v" "length v + length w + length a' = length a4" by blast
  from assms(2) obtain y w' where "w = y # w'" by (cases w) auto
  with v le m st show ?thesis by (simp add: mkMatch_def)
qed

lemma engine_conditionalReplacer_shorter:
  assumes "search f engine_conditionalRegex p a = Some m"
  shows "length (engine_conditionalReplacer Number variables m) < length (fullMatch m)"
proof -
  from assms have "\<exists>v. groups m 4 = Some v \<and> length v < length (fullMatch m)"
    unfolding engine_conditionalRegex_def seqs.simps
    by (rule conditional_content_shorter) simp
  then show ?thesis
    by (auto simp: engine_conditionalReplacer_def Let_def group_def)
qed

lemma format_conditionalReplacer_shorter:
  assumes "search f format_conditionalRegex p a = Some m"
  shows "length (format_conditionalReplacer Number variables m) < length (fullMatch m)"
proof -
  from assms have "\<exists>v. groups m 4 = Some v \<and> length v < length (fullMatch m)"
    unfolding format_conditionalRegex_def seqs.simps
    by (rule conditional_content_shorter) simp
  then show ?thesis
    by (auto simp: format_conditionalReplacer_def Let_def group_def)
qed

text \<open>
  \<open>processConditionals\<close> of the engine: the loop \<^verbatim>\<open>while (changed)\<close>. A pass sets
  \<^verbatim>\<open>changed\<close> exactly when the pattern matches somewhere; each pass that replaces
  something makes the text shorter, which is why the loop ends.
\<close>

function engine_processConditionals ::
  "(string \<Rightarrow> ('n::ord) option) \<Rightarrow> string \<Rightarrow> 'n VariableState \<Rightarrow> string" where
  "engine_processConditionals Number text variables =
     (let result = replaceAll flags_gi engine_conditionalRegex
                     (engine_conditionalReplacer Number variables) None text;
          changed = (search flags_gi engine_conditionalRegex None text \<noteq> None)
      in if changed then engine_processConditionals Number result variables else result)"
  by pat_completeness auto
termination
proof (relation "measure (\<lambda>(Number, text, variables). length text)", goal_cases)
  case 1
  then show ?case by simp
next
  case 2
  then show ?case
    by (auto intro!: replaceAll_length_less engine_conditionalReplacer_shorter)
qed

declare engine_processConditionals.simps [simp del]

subsection \<open>\<open>processVariables\<close>\<close>

text \<open>\<open>processVariables\<close> of the engine and of \<^verbatim>\<open>shared/format.ts\<close>.\<close>

definition engine_processVariables ::
  "(string \<Rightarrow> ('n::{zero,one,plus,minus,ord}) option) \<Rightarrow> string \<Rightarrow> 'n VariableState
     \<Rightarrow> (string \<times> 'n VariableState) option" where
  "engine_processVariables Number text variables =
     (case parseVariables Number text of
        None \<Rightarrow> None
      | Some operations \<Rightarrow>
          (case foldl (\<lambda>st op. engine_applyOperation op st) (text, variables) operations of
             (result, newVariables) \<Rightarrow>
               Some (engine_processConditionals Number result newVariables, newVariables)))"

definition format_processVariables ::
  "(string \<Rightarrow> ('n::{zero,one,plus,minus,ord}) option) \<Rightarrow> string \<Rightarrow> 'n VariableState
     \<Rightarrow> (string \<times> 'n VariableState) option" where
  "format_processVariables Number text variables =
     (case parseVariables Number text of
        None \<Rightarrow> None
      | Some operations \<Rightarrow>
          (case foldl (\<lambda>st op. format_applyOperation op st) (text, variables) operations of
             (result, newVariables) \<Rightarrow>
               Some (format_processConditionals Number result newVariables, newVariables)))"

text \<open>A \<open>Number\<close> for the examples: the decimal integers, with an optional sign, and
  the empty string, which \<^verbatim>\<open>Number\<close> reads as 0.\<close>

definition decimalNumber :: "string \<Rightarrow> int option" where
  "decimalNumber s =
     (if s = [] then Some 0
      else if hd s = CHR ''-'' \<and> tl s \<noteq> [] \<and> list_all isDigit (tl s)
        then Some (- int (parseInt (tl s)))
      else if hd s = CHR ''+'' \<and> tl s \<noteq> [] \<and> list_all isDigit (tl s)
        then Some (int (parseInt (tl s)))
      else if list_all isDigit s then Some (int (parseInt s))
      else None)"

subsection \<open>The order in which the directives are applied\<close>














text \<open>The variable state of a result and the own entry of a name in it.\<close>

definition variablesAfter :: "(string \<times> 'n VariableState) option \<Rightarrow> 'n VariableState option" where
  "variablesAfter r = map_option snd r"

definition lookupAfter :: "'n VariableState option \<Rightarrow> string \<Rightarrow> 'n VariableValue option" where
  "lookupAfter r name = (case r of None \<Rightarrow> None | Some vs \<Rightarrow> vs name)"









text \<open>The names that a plain object inherits: the set under \<^verbatim>\<open>__proto__\<close> stores nothing
  and the condition on it compares the prototype object with 5; \<^verbatim>\<open>constructor\<close> and
  \<^verbatim>\<open>toString\<close> become own entries.\<close>

lemma processVariables_inherited_names_example:
  "lookupAfter (variablesAfter (engine_processVariables decimalNumber
       ''{set:__proto__=5}{set:constructor=7}{add:toString=2}'' Map.empty)) ''__proto__''
     = None
   \<and> lookupAfter (variablesAfter (engine_processVariables decimalNumber
       ''{set:__proto__=5}{set:constructor=7}{add:toString=2}'' Map.empty)) ''constructor''
     = Some (VNumber 7)
   \<and> lookupAfter (variablesAfter (format_processVariables decimalNumber
       ''{set:__proto__=5}{set:constructor=7}{add:toString=2}'' Map.empty)) ''toString''
     = Some (VNumber 2)
   \<and> map_option fst (engine_processVariables decimalNumber
       ''{set:__proto__=5}{if:__proto__==5}yes{/if}'' Map.empty) = Some []
   \<and> map_option fst (format_processVariables decimalNumber
       ''{set:__proto__=5}{if:__proto__==5}yes{/if}'' Map.empty) = Some []"
  by code_simp

section \<open>Conditional blocks in the editor and in the engine\<close>

text \<open>
  C3. On nested blocks the two resolvers differ. With \<open>a\<close> and \<open>b\<close> true, the single
  pass of \<^verbatim>\<open>shared/format.ts\<close> pairs the first opener with the first \<^verbatim>\<open>{/if}\<close> and
  leaves the inner opener and the last \<^verbatim>\<open>{/if}\<close> in the text; the loop of the engine
  resolves the inner block first and then the outer one.
\<close>

theorem nested_conditionals_differ:
  "format_processConditionals decimalNumber ''{if:a}{if:b}Y{/if}{/if}''
     [''a'' \<mapsto> VBoolean True, ''b'' \<mapsto> VBoolean True] = ''{if:b}Y{/if}''
   \<and> engine_processConditionals decimalNumber ''{if:a}{if:b}Y{/if}{/if}''
     [''a'' \<mapsto> VBoolean True, ''b'' \<mapsto> VBoolean True] = ''Y''"
  by code_simp

subsection \<open>Blocks that are not closed or not opened\<close>

lemma engine_needs_tokens:
  assumes "search flags_gi (Lit ''{/if}'') None text = None
     \<or> search flags_gi (Lit ''{if:'') None text = None"
  shows "search flags_gi engine_conditionalRegex None text = None"
  using assms conditional_needs_tokens [of flags_gi "''{if:''" _ _ _ _ "''{/if}''" None "text"]
  unfolding engine_conditionalRegex_def seqs.simps by blast

lemma format_needs_tokens:
  assumes "search flags_gi (Lit ''{/if}'') None text = None
     \<or> search flags_gi (Lit ''{if:'') None text = None"
  shows "search flags_gi format_conditionalRegex None text = None"
  using assms conditional_needs_tokens [of flags_gi "''{if:''" _ _ _ _ "''{/if}''" None "text"]
  unfolding format_conditionalRegex_def seqs.simps by blast

lemma engine_processConditionals_fixed:
  "search flags_gi engine_conditionalRegex None
     (engine_processConditionals Number text vs) = None"
proof (induction Number "text" vs rule: engine_processConditionals.induct)
  case (1 N t vs)
  show ?case
  proof (cases "search flags_gi engine_conditionalRegex None t = None")
    case True
    then show ?thesis
      by (subst engine_processConditionals.simps) (simp add: replaceAll_no_match)
  next
    case False
    with "1.IH" [OF refl refl] show ?thesis
      by (subst engine_processConditionals.simps) (simp add: Let_def)
  qed
qed

text \<open>When the text holds an opener but no \<^verbatim>\<open>{/if}\<close> at all, or a \<^verbatim>\<open>{/if}\<close> but no
  opener \<^verbatim>\<open>{if:\<close> at all (in any case of the letters), neither pattern matches and both
  resolvers return the text as it is.\<close>

lemma processConditionals_without_block:
  assumes "search flags_gi (Lit ''{/if}'') None text = None
     \<or> search flags_gi (Lit ''{if:'') None text = None"
  shows "engine_processConditionals Number text vs = text"
    and "format_processConditionals Number text vs = text"
proof -
  from engine_needs_tokens [OF assms]
  show "engine_processConditionals Number text vs = text"
    by (subst engine_processConditionals.simps) (simp add: replaceAll_no_match)
  from format_needs_tokens [OF assms]
  show "format_processConditionals Number text vs = text"
    by (simp add: format_processConditionals_def replaceAll_no_match)
qed

lemma processConditionals_without_block_example:
  "engine_processConditionals decimalNumber ''{if:hasKey}Door opens'' Map.empty
       = ''{if:hasKey}Door opens''
   \<and> format_processConditionals decimalNumber ''{if:hasKey}Door opens'' Map.empty
       = ''{if:hasKey}Door opens''
   \<and> engine_processConditionals decimalNumber ''Door opens{/if}'' Map.empty
       = ''Door opens{/if}''
   \<and> format_processConditionals decimalNumber ''Door opens{/if}'' Map.empty
       = ''Door opens{/if}''"
  by code_simp

text \<open>In every text, a pass of either resolver changes the spans that its pattern
  matches and nothing else: the text is the pieces between the matches with the matched
  blocks in their places, and the result of the pass is the same pieces with the
  replacements in their places. The engine repeats the pass until nothing matches.\<close>

lemma consuming_conditionalRegex:
  "consuming format_conditionalRegex" "consuming engine_conditionalRegex"
  by (simp_all add: format_conditionalRegex_def engine_conditionalRegex_def)

lemma format_processConditionals_pass:
  "\<exists>ms. execAll flags_gi format_conditionalRegex None text = Some ms
     \<and> substituteMatches fullMatch text ms = text
     \<and> format_processConditionals Number text vs
         = substituteMatches (format_conditionalReplacer Number vs) text ms"
proof -
  from execAll_consuming [OF consuming_conditionalRegex(1), of flags_gi None "text"]
  obtain ms where ms: "execAll flags_gi format_conditionalRegex None text = Some ms"
    by blast
  from replaceAll_substituteMatches [OF ms] execAll_decomposition [OF ms] ms
  show ?thesis by (simp add: format_processConditionals_def)
qed

lemma engine_processConditionals_pass:
  "\<exists>ms. execAll flags_gi engine_conditionalRegex None text = Some ms
     \<and> substituteMatches fullMatch text ms = text
     \<and> engine_processConditionals Number text vs
         = (if ms = [] then text
            else engine_processConditionals Number
                   (substituteMatches (engine_conditionalReplacer Number vs) text ms) vs)"
proof -
  from execAll_consuming [OF consuming_conditionalRegex(2), of flags_gi None "text"]
  obtain ms where ms: "execAll flags_gi engine_conditionalRegex None text = Some ms"
    by blast
  have "engine_processConditionals Number text vs
         = (if ms = [] then text
            else engine_processConditionals Number
                   (substituteMatches (engine_conditionalReplacer Number vs) text ms) vs)"
  proof (cases "search flags_gi engine_conditionalRegex None text")
    case None
    with ms have "ms = []" by (simp add: execAll_no_match)
    with None show ?thesis
      by (subst engine_processConditionals.simps) (simp add: replaceAll_no_match)
  next
    case (Some m)
    with ms have "ms \<noteq> []" by (auto simp: execAll_match split: if_splits)
    with Some show ?thesis
      by (subst engine_processConditionals.simps)
         (simp add: Let_def replaceAll_substituteMatches [OF ms])
  qed
  with ms execAll_decomposition [OF ms] show ?thesis by simp
qed

text \<open>
  C7. The loop of the engine's \<open>processConditionals\<close> ends for every text, on a text in
  which its pattern matches nowhere, and both resolvers return a text without a complete
  block as it is. But the single pass of \<^verbatim>\<open>shared/format.ts\<close> pairs an opener with the
  next \<^verbatim>\<open>{/if}\<close> whatever lies between them, where the pattern of the engine allows no
  opener in between. In \<^verbatim>\<open>{if:a}{if:b}X{/if}\<close> there are two openers and one \<^verbatim>\<open>{/if}\<close>, so
  one opener has no \<^verbatim>\<open>{/if}\<close>. With \<open>a\<close> false and \<open>b\<close> true the engine resolves the
  inner block and leaves the opener \<^verbatim>\<open>{if:a}\<close> in the text; the pass of
  \<^verbatim>\<open>shared/format.ts\<close> returns the empty string: both openers are gone.
\<close>

theorem unclosed_opener_deleted:
  "format_processConditionals decimalNumber ''{if:a}{if:b}X{/if}''
     [''a'' \<mapsto> VBoolean False, ''b'' \<mapsto> VBoolean True] = []
   \<and> engine_processConditionals decimalNumber ''{if:a}{if:b}X{/if}''
     [''a'' \<mapsto> VBoolean False, ''b'' \<mapsto> VBoolean True] = ''{if:a}X''"
  by code_simp

section \<open>Asset references\<close>

text \<open>\<^verbatim>\<open>/\{([^}:]+?)(?::(\w+))?\}/g\<close>, the pattern of \<open>markAssets\<close> in
  \<^verbatim>\<open>shared/format.ts\<close> and of \<open>extractAssetReferences\<close> in \<^verbatim>\<open>editor/pages.ts\<close>.\<close>

definition isBraceOrColon :: "char \<Rightarrow> bool" where
  "isBraceOrColon ch = (ch = CHR ''}'' \<or> ch = CHR '':'')"

definition assetRegex :: regex where
  "assetRegex =
     seqs [Lit ''{'', Group 1 (lazyOneOrMore (NotChars isBraceOrColon)),
           opt (Seq (Lit '':'') (Group 2 (oneOrMore (Chars isWordChar)))), Lit ''}'']"

definition startsWith :: "string \<Rightarrow> string \<Rightarrow> bool" where
  "startsWith s pre = (take (length pre) s = pre)"

definition markAssetsReplacer :: "rmatch \<Rightarrow> string" where
  \<open>markAssetsReplacer m =
     (let assetName = group m 1
      in if startsWith assetName ''set:'' \<or> startsWith assetName ''add:''
            \<or> startsWith assetName ''sub:'' \<or> startsWith assetName ''if:''
            \<or> startsWith assetName ''music:'' \<or> startsWith assetName ''sfx:''
            \<or> startsWith assetName ''ambient:'' \<or> startsWith assetName ''goto:''
            \<or> startsWith assetName ''stop:'' \<or> assetName = ''/if''
         then fullMatch m
         else (let sizeClass = (case groups m 2 of
                                  Some s \<Rightarrow> if s \<noteq> [] then ''size-'' @ s else []
                                | None \<Rightarrow> [])
               in ''<span class="asset-placeholder" data-asset="'' @ assetName
                  @ ''" data-size="'' @ sizeClass @ ''"></span>''))\<close>

definition markAssets :: "string \<Rightarrow> string" where
  "markAssets text = replaceAll flags_g assetRegex markAssetsReplacer None text"

definition commandNames :: "string list" where
  "commandNames = [''set'', ''add'', ''sub'', ''if'', ''music'', ''sfx'', ''ambient'', ''goto'', ''stop'']"

definition assetReferenceOf :: "rmatch \<Rightarrow> string list" where
  "assetReferenceOf m =
     (let name = group m 1
      in if CHR '':'' \<in> set name \<or> name = ''/if''
            \<or> list_ex (\<lambda>cmd. startsWith name (cmd @ '':'')) commandNames
         then [] else [name])"

definition extractAssetReferences :: "string \<Rightarrow> string list option" where
  "extractAssetReferences text =
     map_option (\<lambda>ms. concat (map assetReferenceOf ms)) (execAll flags_g assetRegex None text)"

text \<open>
  C4. The guard of \<open>markAssets\<close> and of \<open>extractAssetReferences\<close> looks for the keyword
  with its colon at the start of the captured name, but the pattern stops the name at
  the first colon, so the name of a directive is the bare keyword and the guard never
  fires for it. A directive whose argument is a single word is matched as
  \<^verbatim>\<open>{name:size}\<close>: \<^verbatim>\<open>{if:hasKey}\<close> becomes an asset placeholder and \<^verbatim>\<open>{goto:3ab}\<close> is
  reported as a reference to an asset \<^verbatim>\<open>goto\<close>. The two instances the claim names do
  hold: \<^verbatim>\<open>{music:theme.mp3}\<close> is left alone and \<^verbatim>\<open>{cave.png}\<close> is an asset.
\<close>

theorem directive_taken_for_asset:
  \<open>markAssets ''{if:hasKey}''
     = ''<span class="asset-placeholder" data-asset="if" data-size="size-hasKey"></span>''
   \<and> markAssets ''{stop:now}''
     = ''<span class="asset-placeholder" data-asset="stop" data-size="size-now"></span>''
   \<and> extractAssetReferences ''{goto:3ab}'' = Some [''goto'']
   \<and> extractAssetReferences ''{add:coins}'' = Some [''add'']
   \<and> markAssets ''{music:theme.mp3}'' = ''{music:theme.mp3}''
   \<and> extractAssetReferences ''{music:theme.mp3}'' = Some []
   \<and> markAssets ''{/if}'' = ''{/if}''
   \<and> extractAssetReferences ''{cave.png}'' = Some [''cave.png'']
   \<and> markAssets ''{cave.png}''
     = ''<span class="asset-placeholder" data-asset="cave.png" data-size=""></span>''\<close>
  by code_simp

section \<open>Choice lines\<close>

text \<open>\<^verbatim>\<open>.\<close> matches every character but a line terminator.\<close>

definition notLineTerminator :: "char \<Rightarrow> bool" where
  "notLineTerminator ch = (\<not> isLineTerminator ch)"

text \<open>\<^verbatim>\<open>^([a-e])\)\s*(?:\[(\d+[a-e]*)\]\s*)?(.+)$\<close>: the pattern of \<open>parseChoiceLine\<close> in
  \<^verbatim>\<open>shared/utils.ts\<close> (flag \<^verbatim>\<open>i\<close>) and of the \<^verbatim>\<open>exec\<close> loop of \<open>extractChoices\<close> in
  \<^verbatim>\<open>shared/format.ts\<close> (flags \<^verbatim>\<open>gim\<close>).\<close>

definition choicePattern :: regex where
  "choicePattern =
     seqs [Bol, Group 1 (Chars isChoiceLetter), Lit '')'', star (Chars isSpace),
           opt (seqs [Lit ''['',
                      Group 2 (Seq (oneOrMore (Chars isDigit)) (star (Chars isChoiceLetter))),
                      Lit '']'', star (Chars isSpace)]),
           Group 3 (oneOrMore (Chars notLineTerminator)), Eol]"

text \<open>\<^verbatim>\<open>/^[a-e]\)\s*(?:\[\d+[a-e]*\]\s*)?.+$/gim\<close>: the pattern with which \<open>extractChoices\<close>
  removes the choice lines.\<close>

definition choiceLineRegex :: regex where
  "choiceLineRegex =
     seqs [Bol, Chars isChoiceLetter, Lit '')'', star (Chars isSpace),
           opt (seqs [Lit ''['',
                      Seq (oneOrMore (Chars isDigit)) (star (Chars isChoiceLetter)),
                      Lit '']'', star (Chars isSpace)]),
           oneOrMore (Chars notLineTerminator), Eol]"

record ParsedChoice =
  parsedLetter :: string
  parsedText :: string
  parsedGoto :: "string option"

text \<open>\<^verbatim>\<open>{ letter: match[1].toLowerCase(), text: match[3].trim(),
  goto: match[2]?.toLowerCase() }\<close>\<close>

definition choiceOfMatch :: "rmatch \<Rightarrow> ParsedChoice" where
  "choiceOfMatch m =
     \<lparr>parsedLetter = toLowerCase (group m 1), parsedText = trim (group m 3),
      parsedGoto = map_option toLowerCase (groups m 2)\<rparr>"

definition parseChoiceLine :: "string \<Rightarrow> ParsedChoice option" where
  "parseChoiceLine line = map_option choiceOfMatch (search flags_i choicePattern None line)"

definition extractChoices :: "string \<Rightarrow> (string \<times> ParsedChoice list) option" where
  "extractChoices text =
     (case execAll flags_gim choicePattern None text of
        None \<Rightarrow> None
      | Some ms \<Rightarrow>
          Some (trim (replaceAll flags_gim choiceLineRegex (\<lambda>m. []) None text),
                map choiceOfMatch ms))"

lemma choiceLineRegex_stripGroups: "choiceLineRegex = stripGroups choicePattern"
  by (simp add: choiceLineRegex_def choicePattern_def star_def oneOrMore_def opt_def)

lemma consuming_choicePattern: "consuming choicePattern"
  by (simp add: choicePattern_def)

text \<open>
  C8. \<open>parseChoiceLine\<close> reads the line of the example as letter \<^verbatim>\<open>b\<close>, text
  \<^verbatim>\<open>Return to the cave\<close> and goto \<^verbatim>\<open>3ab\<close>, and does not match \<^verbatim>\<open>f) bad\<close>. For every text,
  \<open>extractChoices\<close> returns; its choices are read off the matches of the choice
  pattern, one choice per match, and its story text is the text with the span of each
  of these matches replaced by the empty string, trimmed: the text itself is the kept
  pieces with the matched lines between them.
\<close>

theorem extractChoices_removes_matches:
  "parseChoiceLine ''b) [3ab] Return to the cave''
     = Some \<lparr>parsedLetter = ''b'', parsedText = ''Return to the cave'',
             parsedGoto = Some ''3ab''\<rparr>
   \<and> parseChoiceLine ''f) bad'' = None
   \<and> (\<exists>ms. execAll flags_gim choicePattern None text = Some ms
         \<and> extractChoices text
              = Some (trim (substituteMatches (\<lambda>m. []) text ms), map choiceOfMatch ms)
         \<and> substituteMatches fullMatch text ms = text)"
proof -
  have ex1: "parseChoiceLine ''b) [3ab] Return to the cave''
     = Some \<lparr>parsedLetter = ''b'', parsedText = ''Return to the cave'',
             parsedGoto = Some ''3ab''\<rparr>"
    by code_simp
  have ex2: "parseChoiceLine ''f) bad'' = None"
    by code_simp
  from execAll_consuming [OF consuming_choicePattern, of flags_gim None "text"] obtain ms where
    ms: "execAll flags_gim choicePattern None text = Some ms" by blast
  from replaceAll_stripGroups [OF ms, of "[]"]
  have "extractChoices text
      = Some (trim (substituteMatches (\<lambda>m. []) text ms), map choiceOfMatch ms)"
    by (simp add: extractChoices_def ms choiceLineRegex_stripGroups)
  with ms execAll_decomposition [OF ms] ex1 ex2 show ?thesis by simp
qed

lemma extractChoices_example:
  "extractChoices (''You wake.'' @ [CHR 0x0A] @ ''a) Go left'' @ [CHR 0x0A] @ ''B) [3ab] Back''
      @ [CHR 0x0A])
   = Some (''You wake.'',
       [\<lparr>parsedLetter = ''a'', parsedText = ''Go left'', parsedGoto = None\<rparr>,
        \<lparr>parsedLetter = ''b'', parsedText = ''Back'', parsedGoto = Some ''3ab''\<rparr>])"
  by code_simp

section \<open>Player state\<close>

record StoryMetadata =
  title :: string
  author :: string
  description :: string

record 'n PlayerState =
  currentPage :: nat
  currentPath :: string
  choiceLog :: "string list"
  variables :: "'n VariableState"
  storyFolder :: string
  isPlaying :: bool
  metadata :: "StoryMetadata option"

text \<open>\<open>makeChoice\<close> of the engine's player module. The optional \<^verbatim>\<open>gotoPage\<close> is
  \<open>None\<close> when absent; \<^verbatim>\<open>if (gotoPage)\<close> is false for the empty string too.\<close>

definition makeChoice :: "'n PlayerState \<Rightarrow> string \<Rightarrow> string option \<Rightarrow> 'n PlayerState" where
  "makeChoice state letter gotoPage =
     (let newLog = choiceLog state @ [letter];
          standard = state\<lparr>currentPage := currentPage state + 1,
                           currentPath := currentPath state @ letter,
                           choiceLog := newLog\<rparr>
      in case gotoPage of
           None \<Rightarrow> standard
         | Some g \<Rightarrow>
             if g = [] then standard
             else (case parsePageId g of
                     Some parsed \<Rightarrow>
                       state\<lparr>currentPage := num parsed, currentPath := path parsed,
                              choiceLog := newLog\<rparr>
                   | None \<Rightarrow> standard))"

lemma parsePageId_empty: "parsePageId [] = None"
  by code_simp

text \<open>
  C10. \<open>makeChoice\<close> is a total function. Without a goto string, or with one that does
  not parse as a page id, the page number goes up by one and the letter is appended to
  the path; with a goto that parses, page number and path are the parsed ones. In every
  case the letter is appended to the choice log and the other fields are unchanged.
\<close>

theorem makeChoice_result:
  "makeChoice state letter gotoPage =
     (case (case gotoPage of None \<Rightarrow> None | Some g \<Rightarrow> parsePageId g) of
        None \<Rightarrow> state\<lparr>currentPage := currentPage state + 1,
                        currentPath := currentPath state @ letter,
                        choiceLog := choiceLog state @ [letter]\<rparr>
      | Some parsed \<Rightarrow> state\<lparr>currentPage := num parsed, currentPath := path parsed,
                               choiceLog := choiceLog state @ [letter]\<rparr>)
   \<and> choiceLog (makeChoice state letter gotoPage) = choiceLog state @ [letter]
   \<and> variables (makeChoice state letter gotoPage) = variables state
   \<and> storyFolder (makeChoice state letter gotoPage) = storyFolder state
   \<and> isPlaying (makeChoice state letter gotoPage) = isPlaying state
   \<and> metadata (makeChoice state letter gotoPage) = metadata state"
  by (auto simp: makeChoice_def Let_def parsePageId_empty split: option.splits)

definition createPlayerState :: "'n PlayerState" where
  "createPlayerState =
     \<lparr>currentPage = 1, currentPath = [], choiceLog = [], variables = Map.empty,
      storyFolder = [], isPlaying = False, metadata = None\<rparr>"

theorem makeChoice_result_witness:
  "makeChoice (createPlayerState :: int PlayerState) ''b'' (Some ''3ab'') =
     createPlayerState\<lparr>currentPage := 3, currentPath := ''ab'', choiceLog := [''b'']\<rparr>
   \<and> makeChoice (createPlayerState :: int PlayerState) ''b'' (Some ''cave'') =
     createPlayerState\<lparr>currentPage := 2, currentPath := ''b'', choiceLog := [''b'']\<rparr>
   \<and> makeChoice (createPlayerState :: int PlayerState) ''b'' None =
     createPlayerState\<lparr>currentPage := 2, currentPath := ''b'', choiceLog := [''b'']\<rparr>"
proof -
  have a: "parsePageId ''3ab'' = Some \<lparr>num = 3, path = ''ab''\<rparr>" by code_simp
  have b: "parsePageId ''cave'' = None" by code_simp
  show ?thesis
    using makeChoice_result [of "createPlayerState :: int PlayerState" "''b''" "Some ''3ab''"]
      makeChoice_result [of "createPlayerState :: int PlayerState" "''b''" "Some ''cave''"]
      makeChoice_result [of "createPlayerState :: int PlayerState" "''b''" None]
    by (simp add: a b createPlayerState_def)
qed

section \<open>Pages and the story graph\<close>

record Choice =
  letter :: string
  choiceText :: string
  goto :: "string option"

record Page =
  content :: string
  hasChoices :: bool
  isEnding :: bool
  choices :: "Choice list"

text \<open>
  A page collection \<^verbatim>\<open>Record<string, Page>\<close> is the list of its entries, in the order
  \<^verbatim>\<open>Object.entries\<close> gives them; \<^verbatim>\<open>pages[id]\<close> is \<open>map_of pages id\<close>, and it is truthy
  exactly when the id is a key.
\<close>

type_synonym Pages = "(string \<times> Page) list"

datatype NodeType = Normal | ChoiceNode | Ending | Orphan

record GraphNode =
  nodeId :: string
  nodeLabel :: string
  nodeType :: NodeType

record GraphEdge =
  source :: string
  target :: string
  edgeLabel :: "string option"

text \<open>\<^verbatim>\<open>choice.goto || `${nextNum}${parsed.path}${choice.letter}`\<close>: the goto when it is
  present and not empty, the computed child id otherwise.\<close>

definition choiceTarget :: "ParsedPageId \<Rightarrow> Choice \<Rightarrow> string" where
  "choiceTarget parsed choice =
     (case goto choice of
        Some g \<Rightarrow> if g \<noteq> [] then g
                  else numberToString (num parsed + 1) @ path parsed @ letter choice
      | None \<Rightarrow> numberToString (num parsed + 1) @ path parsed @ letter choice)"

definition successors :: "Pages \<Rightarrow> string \<Rightarrow> Page \<Rightarrow> string list" where
  "successors pages current page =
     (if hasChoices page \<and> \<not> isEnding page then
        concat (map (\<lambda>choice.
          case parsePageId current of
            None \<Rightarrow> []
          | Some parsed \<Rightarrow>
              (let targetId = choiceTarget parsed choice
               in if map_of pages targetId \<noteq> None then [targetId] else []))
          (choices page))
      else if \<not> isEnding page then
        (case parsePageId current of
           None \<Rightarrow> []
         | Some parsed \<Rightarrow>
             (let nextId = numberToString (num parsed + 1) @ path parsed
              in if map_of pages nextId \<noteq> None then [nextId] else []))
      else [])"

text \<open>The first loop of \<open>buildGraphData\<close>: the queue and the set \<^verbatim>\<open>reachable\<close>.\<close>

function reachableLoop :: "Pages \<Rightarrow> string list \<Rightarrow> string set \<Rightarrow> string set" where
  "reachableLoop pages [] reachable = reachable"
| "reachableLoop pages (current # queue) reachable =
     (case map_of pages current of
        None \<Rightarrow> reachableLoop pages queue reachable
      | Some page \<Rightarrow>
          if current \<in> reachable then reachableLoop pages queue reachable
          else reachableLoop pages (queue @ successors pages current page)
                 (insert current reachable))"
  by pat_completeness auto
termination
proof (relation "inv_image (less_than <*lex*> less_than)
        (\<lambda>(pages, queue, reachable). (card (fst ` set pages - reachable), length queue))",
       goal_cases)
  case 1
  then show ?case by auto
next
  case (2 pages current queue reachable)
  then show ?case by auto
next
  case (3 pages current queue reachable page)
  then show ?case by auto
next
  case (4 pages current queue reachable page)
  then have "current \<in> fst ` set pages - reachable"
    by (auto dest!: map_of_SomeD simp: image_iff intro!: bexI [of _ "(current, page)"])
  then have "card ((fst ` set pages - reachable) - {current})
             < card (fst ` set pages - reachable)"
    by (intro card_Diff1_less) auto
  moreover have "fst ` set pages - insert current reachable
                 = (fst ` set pages - reachable) - {current}" by auto
  ultimately show ?case by simp
qed

definition reachablePages :: "Pages \<Rightarrow> string set" where
  "reachablePages pages = reachableLoop pages [''1''] {}"

definition graphNode :: "string set \<Rightarrow> string \<times> Page \<Rightarrow> GraphNode" where
  "graphNode reachable entry = (case entry of (pid, page) \<Rightarrow>
     \<lparr>nodeId = pid, nodeLabel = pid,
      nodeType = (if isEnding page then Ending
                  else if hasChoices page then ChoiceNode
                  else if pid \<notin> reachable then Orphan
                  else Normal)\<rparr>)"

definition graphEdges :: "Pages \<Rightarrow> string \<times> Page \<Rightarrow> GraphEdge list" where
  "graphEdges pages entry = (case entry of (pid, page) \<Rightarrow>
     if isEnding page then []
     else (case parsePageId pid of
        None \<Rightarrow> []
      | Some parsed \<Rightarrow>
          if hasChoices page then
            concat (map (\<lambda>choice.
              if trim (choiceText choice) = [] then []
              else (let targetId = choiceTarget parsed choice
                    in if map_of pages targetId \<noteq> None
                       then [\<lparr>source = pid, target = targetId, edgeLabel = Some (letter choice)\<rparr>]
                       else []))
              (choices page))
          else (let nextId = numberToString (num parsed + 1) @ path parsed
                in if map_of pages nextId \<noteq> None
                   then [\<lparr>source = pid, target = nextId, edgeLabel = None\<rparr>]
                   else [])))"

definition buildGraphData :: "Pages \<Rightarrow> GraphNode list \<times> GraphEdge list" where
  "buildGraphData pages =
     (let reachable = reachablePages pages
      in (map (graphNode reachable) pages, concat (map (graphEdges pages) pages)))"

text \<open>An example collection: page 1 offers two choices; pages 7, 8 and 9 cannot be
  reached from it. Page 7 is an ending and page 8 has choices.\<close>

definition examplePages :: Pages where
  "examplePages =
     [(''1'', \<lparr>content = ''Start'', hasChoices = True, isEnding = False,
               choices = [\<lparr>letter = ''a'', choiceText = ''Left'', goto = None\<rparr>,
                          \<lparr>letter = ''b'', choiceText = ''Right'', goto = None\<rparr>]\<rparr>),
      (''7'', \<lparr>content = ''Lost ending'', hasChoices = False, isEnding = True, choices = []\<rparr>),
      (''8'', \<lparr>content = ''Lost fork'', hasChoices = True, isEnding = False, choices = []\<rparr>),
      (''9'', \<lparr>content = ''Lost'', hasChoices = False, isEnding = False, choices = []\<rparr>),
      (''2a'', \<lparr>content = ''The end'', hasChoices = True, isEnding = True, choices = []\<rparr>),
      (''2b'', \<lparr>content = ''On'', hasChoices = False, isEnding = False, choices = []\<rparr>)]"

lemma reachablePages_example: "reachablePages examplePages = {''1'', ''2a'', ''2b''}"
  by code_simp

lemma graphNode_nth:
  "i < length pages \<Longrightarrow> fst (buildGraphData pages) ! i = graphNode (reachablePages pages) (pages ! i)"
  by (simp add: buildGraphData_def Let_def)

text \<open>
  C2, as stated, fails: a page that cannot be reached from page 1 is classified
  \<open>Orphan\<close> only when it is neither an ending nor a page with choices. In the example,
  the unreachable ending 7 is an \<open>Ending\<close> node and the unreachable page 8 with choices
  is a \<open>ChoiceNode\<close>; only page 9 is an \<open>Orphan\<close>.
\<close>

theorem orphan_overrides_counterexample:
  "''7'' \<notin> reachablePages examplePages \<and> ''8'' \<notin> reachablePages examplePages
   \<and> map nodeId (fst (buildGraphData examplePages)) = [''1'', ''7'', ''8'', ''9'', ''2a'', ''2b'']
   \<and> map nodeType (fst (buildGraphData examplePages))
       = [ChoiceNode, Ending, ChoiceNode, Orphan, Ending, Normal]"
  by code_simp

text \<open>
  C2, amended: \<open>buildGraphData\<close> makes one node per page, in the order of the
  collection, and classifies it by the page's own attributes first: an ending is
  \<open>Ending\<close> (also when it has choices, and whether or not it can be reached), else a
  page with choices is \<open>ChoiceNode\<close>, and only a page that is neither is classified by
  reachability from page 1: \<open>Orphan\<close> when it is not in the reachable set, \<open>Normal\<close>
  when it is.
\<close>

theorem buildGraphData_classification:
  assumes "i < length pages" and "pages ! i = (pid, page)"
  shows "length (fst (buildGraphData pages)) = length pages
    \<and> nodeId (fst (buildGraphData pages) ! i) = pid
    \<and> nodeType (fst (buildGraphData pages) ! i) =
         (if isEnding page then Ending
          else if hasChoices page then ChoiceNode
          else if pid \<in> reachablePages pages then Normal
          else Orphan)
    \<and> (nodeType (fst (buildGraphData pages) ! i) = Orphan \<longleftrightarrow>
         \<not> isEnding page \<and> \<not> hasChoices page \<and> pid \<notin> reachablePages pages)"
  using assms by (simp add: graphNode_nth graphNode_def) (simp add: buildGraphData_def Let_def)

theorem buildGraphData_classification_witness:
  "(1::nat) < length examplePages
   \<and> examplePages ! 1 = (''7'', \<lparr>content = ''Lost ending'', hasChoices = False, isEnding = True, choices = []\<rparr>)
   \<and> ''7'' \<notin> reachablePages examplePages
   \<and> nodeType (fst (buildGraphData examplePages) ! 1) = Ending"
proof -
  have a: "(1::nat) < length examplePages" by (simp add: examplePages_def)
  have b: "examplePages ! 1 = (''7'', \<lparr>content = ''Lost ending'', hasChoices = False, isEnding = True, choices = []\<rparr>)"
    by (simp add: examplePages_def)
  from buildGraphData_classification [OF a b] a b show ?thesis
    by (simp add: reachablePages_example)
qed

end
